theory Spec2Isabelle
  imports Main "HOL-Library.Multiset"
begin

section \<open>Entity model (types/concept.ts)\<close>

text \<open>
  The zod schemas of \<^verbatim>\<open>types/concept.ts\<close>. A JavaScript string is modelled as a HOL
  \<open>string\<close>: each \<open>char\<close> stands for one code unit, so the model covers the code units
  0..255. An optional field (\<^verbatim>\<open>z.string().optional()\<close>) is an \<open>option\<close>, with \<open>None\<close> for
  \<^verbatim>\<open>undefined\<close>.
\<close>

datatype ConceptCategory = language | library | pattern | architecture

record ChatSnippet =
  timestamp :: string
  content :: string

record ExtractedConcept =
  name :: string
  category :: ConceptCategory
  parent :: "string option"
  explanation :: string

text \<open>The \<^verbatim>\<open>updates\<close> argument of \<^verbatim>\<open>StorageService.updateConcept\<close>: four optional fields.\<close>

record Updates =
  name :: "string option"
  explanation :: "string option"
  chatSnippet :: "string option"
  codeLocations :: "string list option"

record Concept =
  id' :: string
  name :: string
  category :: ConceptCategory
  parent :: "string option"
  explanation :: string
  chatSnippets :: "ChatSnippet list"
  codeLocations :: "string list"
  firstSeen :: string
  lastSeen :: string

record ConceptStore =
  version :: string
  concepts :: "Concept list"
  lastUpdated :: string

text \<open>
  JavaScript truthiness of a \<^verbatim>\<open>string | undefined | null\<close> value, as tested by
  \<^verbatim>\<open>if (parent)\<close>, \<^verbatim>\<open>if (updates.name)\<close>, \<^verbatim>\<open>while (current)\<close>: \<^verbatim>\<open>undefined\<close>, \<^verbatim>\<open>null\<close> and
  the empty string are falsy.
\<close>

fun truthy :: "string option \<Rightarrow> bool" where
  "truthy None = False"
| "truthy (Some s) = (s \<noteq> [])"

text \<open>\<^verbatim>\<open>Array.prototype.findIndex\<close>; \<open>None\<close> stands for the result \<^verbatim>\<open>-1\<close>.\<close>

fun findIndex :: "('a \<Rightarrow> bool) \<Rightarrow> 'a list \<Rightarrow> nat option" where
  "findIndex P [] = None"
| "findIndex P (x # xs) =
     (if P x then Some 0 else map_option Suc (findIndex P xs))"

text \<open>
  \<^verbatim>\<open>String.prototype.toLowerCase\<close> on the code units 0..255: the ASCII capitals and the
  Latin-1 capitals \<^verbatim>\<open>0xC0..0xDE\<close> (without the multiplication sign \<^verbatim>\<open>0xD7\<close>) move up by 32.
\<close>

definition lower_char :: "char \<Rightarrow> char" where
  "lower_char c =
     (let n = of_char c :: nat in
      if (65 \<le> n \<and> n \<le> 90) \<or> (192 \<le> n \<and> n \<le> 222 \<and> n \<noteq> 215)
      then char_of (n + 32) else c)"

definition toLowerCase :: "string \<Rightarrow> string" where
  "toLowerCase s = map lower_char s"

text \<open>
  \<^verbatim>\<open>[...new Set(xs)]\<close>: a JavaScript \<^verbatim>\<open>Set\<close> keeps insertion order, so the first
  occurrence of every element stays and later ones are dropped.
\<close>

fun set_spread :: "'a list \<Rightarrow> 'a list \<Rightarrow> 'a list" where
  "set_spread seen [] = seen"
| "set_spread seen (x # xs) =
     (if x \<in> set seen then set_spread seen xs else set_spread (seen @ [x]) xs)"

section \<open>Persistence and the concept repository (services/storage.ts)\<close>

text \<open>
  The part of the runtime that \<^verbatim>\<open>StorageService\<close> calls and that is not code of the
  repository: the clock (\<^verbatim>\<open>new Date().toISOString()\<close>, the k-th reading), the id generator
  (\<^verbatim>\<open>uuidv4()\<close>, the k-th id), the serialiser \<^verbatim>\<open>JSON.stringify(store, null, 2)\<close> and the
  reader \<^verbatim>\<open>ConceptStore.parse(JSON.parse(data))\<close>, which is \<open>None\<close> when either call throws.
\<close>

record Runtime =
  date_at :: "nat \<Rightarrow> string"
  uuid_at :: "nat \<Rightarrow> string"
  stringify :: "ConceptStore \<Rightarrow> string"
  parse :: "string \<Rightarrow> ConceptStore option"

text \<open>
  The state a \<^verbatim>\<open>StorageService\<close> works on: its field \<^verbatim>\<open>this.store\<close> (\<open>None\<close> for \<^verbatim>\<open>null\<close>),
  the content of the file at \<^verbatim>\<open>storagePath\<close> (\<open>None\<close> when reading it fails, as when it
  does not exist), whether \<^verbatim>\<open>fs.mkdir\<close> and \<^verbatim>\<open>fs.writeFile\<close> succeed, and how many clock
  readings and ids have been drawn.
\<close>

record StorageService =
  store :: "ConceptStore option"
  disk :: "string option"
  mkdir_ok :: bool
  write_ok :: bool
  clock :: nat
  uuids :: nat

datatype error =
    ConceptNotFound string
  | ParentNotFound string
  | CircularReference
  | IOFailure
  | ParseFailure

text \<open>The body of the \<^verbatim>\<open>try\<close> block of \<^verbatim>\<open>load\<close>: every statement of it may throw.\<close>

definition read_store :: "Runtime \<Rightarrow> StorageService \<Rightarrow> error + ConceptStore" where
  "read_store E s =
     (if \<not> mkdir_ok s then Inl IOFailure
      else case disk s of
        None \<Rightarrow> Inl IOFailure
      | Some data \<Rightarrow>
          (case parse E data of None \<Rightarrow> Inl ParseFailure | Some st \<Rightarrow> Inr st))"

definition empty_store :: "string \<Rightarrow> ConceptStore" where
  "empty_store now = \<lparr>version = ''1.0.0'', concepts = [], lastUpdated = now\<rparr>"

definition load :: "Runtime \<Rightarrow> StorageService \<Rightarrow> ConceptStore \<times> StorageService" where
  "load E s =
     (case store s of
        Some st \<Rightarrow> (st, s)
      | None \<Rightarrow>
          (case read_store E s of
             Inr st \<Rightarrow> (st, s\<lparr>store := Some st\<rparr>)
           | Inl e \<Rightarrow>
               (let st = empty_store (date_at E (clock s))
                in (st, s\<lparr>store := Some st, clock := Suc (clock s)\<rparr>))))"

definition save :: "Runtime \<Rightarrow> StorageService \<Rightarrow> (error + unit) \<times> StorageService" where
  "save E s =
     (case store s of
        None \<Rightarrow> (Inr (), s)
      | Some st \<Rightarrow>
          if \<not> mkdir_ok s then (Inl IOFailure, s)
          else
            (let st' = st\<lparr>lastUpdated := date_at E (clock s)\<rparr>;
                 s1 = s\<lparr>store := Some st', clock := Suc (clock s)\<rparr>
             in if \<not> write_ok s then (Inl IOFailure, s1)
                else (Inr (), s1\<lparr>disk := Some (stringify E st')\<rparr>)))"


definition getConceptById ::
  "Runtime \<Rightarrow> StorageService \<Rightarrow> string \<Rightarrow> Concept option \<times> StorageService" where
  "getConceptById E s i =
     (let (st, s1) = load E s in (find (\<lambda>c. id' c = i) (concepts st), s1))"

definition getConceptByName ::
  "Runtime \<Rightarrow> StorageService \<Rightarrow> string \<Rightarrow> Concept option \<times> StorageService" where
  "getConceptByName E s n =
     (let (st, s1) = load E s
      in (find (\<lambda>c. toLowerCase (name c) = toLowerCase n) (concepts st), s1))"

text \<open>
  The assignments of \<^verbatim>\<open>updateConcept\<close> to the concept found, in the order of the source:
  each optional field is applied when it is truthy (\<^verbatim>\<open>codeLocations\<close>: when it is given, an
  array being truthy), then \<^verbatim>\<open>lastSeen\<close> is set.
\<close>

definition apply_updates :: "string \<Rightarrow> Updates \<Rightarrow> Concept \<Rightarrow> Concept" where
  "apply_updates now updates concept =
     (let c1 = (if truthy (Updates.name updates)
                then concept\<lparr>name := the (Updates.name updates)\<rparr> else concept);
          c2 = (if truthy (Updates.explanation updates)
                then c1\<lparr>explanation := the (Updates.explanation updates)\<rparr> else c1);
          c3 = (if truthy (chatSnippet updates)
                then c2\<lparr>chatSnippets := chatSnippets c2 @
                       [\<lparr>timestamp = now, content = the (chatSnippet updates)\<rparr>]\<rparr>
                else c2);
          c4 = (case Updates.codeLocations updates of
                  None \<Rightarrow> c3
                | Some locs \<Rightarrow> c3\<lparr>codeLocations := set_spread [] (codeLocations c3 @ locs)\<rparr>)
      in c4\<lparr>lastSeen := now\<rparr>)"

definition updateConcept ::
  "Runtime \<Rightarrow> StorageService \<Rightarrow> string \<Rightarrow> Updates \<Rightarrow> (error + Concept) \<times> StorageService" where
  "updateConcept E s i updates =
     (let (st, s1) = load E s in
      case findIndex (\<lambda>c. id' c = i) (concepts st) of
        None \<Rightarrow> (Inl (ConceptNotFound i), s1)
      | Some index \<Rightarrow>
          (let concept = apply_updates (date_at E (clock s1)) updates (concepts st ! index);
               s2 = s1\<lparr>clock := Suc (clock s1),
                       store := Some (st\<lparr>concepts := (concepts st)[index := concept]\<rparr>)\<rparr>
           in case save E s2 of
                (Inl e, s3) \<Rightarrow> (Inl e, s3)
              | (Inr u, s3) \<Rightarrow> (Inr concept, s3)))"

text \<open>The object literal of \<^verbatim>\<open>addConcept\<close>: the concept made from an extraction.\<close>

definition new_concept :: "string \<Rightarrow> string \<Rightarrow> ExtractedConcept \<Rightarrow> string option \<Rightarrow> Concept" where
  "new_concept uuid now extracted snippet =
     \<lparr>id' = uuid,
      name = ExtractedConcept.name extracted,
      category = ExtractedConcept.category extracted,
      parent = ExtractedConcept.parent extracted,
      explanation = ExtractedConcept.explanation extracted,
      chatSnippets = (if truthy snippet then [\<lparr>timestamp = now, content = the snippet\<rparr>] else []),
      codeLocations = [],
      firstSeen = now,
      lastSeen = now\<rparr>"

definition addConcept ::
  "Runtime \<Rightarrow> StorageService \<Rightarrow> ExtractedConcept \<Rightarrow> string option
     \<Rightarrow> (error + Concept) \<times> StorageService" where
  "addConcept E s extracted snippet =
     (let (st, s1) = load E s;
          (existing, s2) = getConceptByName E s1 (ExtractedConcept.name extracted)
      in case existing of
           Some e \<Rightarrow>
             updateConcept E s2 (id' e)
               \<lparr>Updates.name = None, Updates.explanation = None,
                chatSnippet = snippet, Updates.codeLocations = None\<rparr>
         | None \<Rightarrow>
             (let concept = new_concept (uuid_at E (uuids s2)) (date_at E (clock s2))
                              extracted snippet;
                  s3 = s2\<lparr>clock := Suc (clock s2), uuids := Suc (uuids s2),
                          store := Some (st\<lparr>concepts := concepts st @ [concept]\<rparr>)\<rparr>
              in case save E s3 of
                   (Inl e, s4) \<Rightarrow> (Inl e, s4)
                 | (Inr u, s4) \<Rightarrow> (Inr concept, s4)))"


text \<open>
  The loop of \<^verbatim>\<open>wouldCreateCycle\<close>, one call per test of \<^verbatim>\<open>while (current)\<close>:
  \<open>visited\<close> is the \<^verbatim>\<open>Set\<close> of names seen so far and \<open>current\<close> the name to look at next.
  The loop ends: a name that is looked up again is in \<open>visited\<close>, and only names of
  concepts lead to a further round.
\<close>

function walk :: "Concept list \<Rightarrow> string \<Rightarrow> string set \<Rightarrow> string option \<Rightarrow> bool" where
  "walk cs childName visited current =
     (case current of
        None \<Rightarrow> False
      | Some cur \<Rightarrow>
          if cur = [] then False
          else if cur = childName then True
          else if cur \<in> visited then True
          else walk cs childName (insert cur visited)
                 (case find (\<lambda>c. name c = cur) cs of None \<Rightarrow> None | Some p \<Rightarrow> parent p))"
  by pat_completeness auto

lemma find_Some_in: "find P xs = Some x \<Longrightarrow> x \<in> set xs \<and> P x"
  by (induction xs) (auto split: if_splits)

lemma walk_measure:
  assumes "cur \<notin> visited"
    and "truthy (case find (\<lambda>c. name c = cur) cs of None \<Rightarrow> None | Some p \<Rightarrow> parent p)"
  shows "card (name ` set cs - insert cur visited) < card (name ` set cs - visited)"
proof -
  obtain p where "find (\<lambda>c. name c = cur) cs = Some p"
    using assms(2) by (cases "find (\<lambda>c. name c = cur) cs") auto
  then have "cur \<in> name ` set cs"
    using find_Some_in by force
  with assms(1) have "name ` set cs - insert cur visited \<subset> name ` set cs - visited"
    by blast
  then show ?thesis
    by (simp add: psubset_card_mono)
qed

termination walk
proof (relation "measure (\<lambda>(cs, childName, visited, current).
         if truthy current then Suc (card (name ` set cs - visited)) else 0)")
  show "wf (measure (\<lambda>(cs, childName, visited, current).
         if truthy current then Suc (card (name ` set cs - visited)) else 0))"
    by simp
next
  fix cs :: "Concept list" and childName :: string and visited :: "string set"
    and current :: "string option" and cur :: string
  assume "current = Some cur" "cur \<noteq> []" "cur \<noteq> childName" "cur \<notin> visited"
  then show "((cs, childName, insert cur visited,
               case find (\<lambda>c. name c = cur) cs of None \<Rightarrow> None | Some p \<Rightarrow> parent p),
              (cs, childName, visited, current))
             \<in> measure (\<lambda>(cs, childName, visited, current).
                  if truthy current then Suc (card (name ` set cs - visited)) else 0)"
    using walk_measure [of cur visited cs] by simp
qed

declare walk.simps [simp del]

definition wouldCreateCycle :: "Concept list \<Rightarrow> string \<Rightarrow> string \<Rightarrow> bool" where
  "wouldCreateCycle cs childId parentName =
     (case find (\<lambda>c. id' c = childId) cs of
        None \<Rightarrow> False
      | Some child \<Rightarrow> walk cs (name child) {} (Some parentName))"

text \<open>
  The block \<^verbatim>\<open>if (parent) { ... }\<close> of \<^verbatim>\<open>updateConceptParent\<close>: the two checks made on a
  truthy parent name, in the order of the source, each ending in a \<^verbatim>\<open>throw\<close>.
\<close>

definition validate_parent :: "Concept list \<Rightarrow> string \<Rightarrow> string \<Rightarrow> error + unit" where
  "validate_parent cs i p =
     (case find (\<lambda>c. name c = p) cs of
        None \<Rightarrow> Inl (ParentNotFound p)
      | Some parentConcept \<Rightarrow>
          if wouldCreateCycle cs i p then Inl CircularReference else Inr ())"

text \<open>\<^verbatim>\<open>updateConceptParent(id, parent)\<close>; the argument \<open>None\<close> stands for \<^verbatim>\<open>null\<close>.\<close>

definition updateConceptParent ::
  "Runtime \<Rightarrow> StorageService \<Rightarrow> string \<Rightarrow> string option
     \<Rightarrow> (error + Concept) \<times> StorageService" where
  "updateConceptParent E s i newParent =
     (let (st, s1) = load E s in
      case findIndex (\<lambda>c. id' c = i) (concepts st) of
        None \<Rightarrow> (Inl (ConceptNotFound i), s1)
      | Some index \<Rightarrow>
          (case (if truthy newParent then validate_parent (concepts st) i (the newParent)
                 else Inr ()) of
             Inl e \<Rightarrow> (Inl e, s1)
           | Inr u \<Rightarrow>
               (let concept = (concepts st ! index)
                      \<lparr>parent := (if truthy newParent then newParent else None),
                       lastSeen := date_at E (clock s1)\<rparr>;
                    s2 = s1\<lparr>clock := Suc (clock s1),
                            store := Some (st\<lparr>concepts := (concepts st)[index := concept]\<rparr>)\<rparr>
                in case save E s2 of
                     (Inl e, s3) \<Rightarrow> (Inl e, s3)
                   | (Inr u', s3) \<Rightarrow> (Inr concept, s3))))"

section \<open>Sequences of calls\<close>





section \<open>The parent graph, as the specification words it\<close>

text \<open>
  The parent reference read off a name: the \<^verbatim>\<open>parent\<close> field of the first concept that
  has the name (resolution by name, first match), \<open>None\<close> when no concept has it.
\<close>

definition parent_of :: "Concept list \<Rightarrow> string \<Rightarrow> string option" where
  "parent_of cs n = (case find (\<lambda>c. name c = n) cs of None \<Rightarrow> None | Some p \<Rightarrow> parent p)"

text \<open>
  The chain of parent name-references upward from a starting name: \<open>chain cs start k\<close> is
  the name reached after \<open>k\<close> steps, and \<open>None\<close> once the chain has ended (at a name no
  concept has, or at a concept without a parent).
\<close>

fun chain :: "Concept list \<Rightarrow> string option \<Rightarrow> nat \<Rightarrow> string option" where
  "chain cs start 0 = (if truthy start then start else None)"
| "chain cs start (Suc k) =
     (case chain cs start k of
        None \<Rightarrow> None
      | Some n \<Rightarrow> (if truthy (parent_of cs n) then parent_of cs n else None))"

text \<open>
  The walk from \<open>start\<close> reaches the name \<open>target\<close>, or comes to a name a second time.
\<close>

definition walk_finds :: "Concept list \<Rightarrow> string \<Rightarrow> string \<Rightarrow> bool" where
  "walk_finds cs target start \<longleftrightarrow>
     (\<exists>k. chain cs (Some start) k = Some target) \<or>
     (\<exists>i j. i < j \<and> chain cs (Some start) i \<noteq> None \<and>
            chain cs (Some start) i = chain cs (Some start) j)"

text \<open>
  The same with a set \<open>V\<close> of names already visited: the invariant of the loop of
  \<^verbatim>\<open>wouldCreateCycle\<close>.
\<close>

definition hits :: "Concept list \<Rightarrow> string \<Rightarrow> string set \<Rightarrow> string option \<Rightarrow> bool" where
  "hits cs target V start \<longleftrightarrow>
     (\<exists>k n. chain cs start k = Some n \<and> (n = target \<or> n \<in> V)) \<or>
     (\<exists>i j. i < j \<and> chain cs start i \<noteq> None \<and> chain cs start i = chain cs start j)"

text \<open>
  The parent graph: an edge from a concept's name to the name its \<^verbatim>\<open>parent\<close> field holds,
  when that is truthy.
\<close>

definition parent_edges :: "Concept list \<Rightarrow> (string \<times> string) set" where
  "parent_edges cs = {(n, p). parent_of cs n = Some p \<and> p \<noteq> []}"


text \<open>
  What \<^verbatim>\<open>uuidv4\<close> is relied on for: the id generator never gives an id twice, and from its
  \<open>n\<close>-th reading on it gives no id of a concept of the list.
\<close>

definition fresh_from :: "Runtime \<Rightarrow> nat \<Rightarrow> Concept list \<Rightarrow> bool" where
  "fresh_from E n cs \<longleftrightarrow> inj (uuid_at E) \<and> (\<forall>k\<ge>n. uuid_at E k \<notin> id' ` set cs)"

section \<open>The hierarchy builder (services/export.ts, buildTree)\<close>

text \<open>
  A \<^verbatim>\<open>TreeNode\<close> object. The nodes are shared and mutated through \<^verbatim>\<open>nodeMap\<close>, so they
  live in a store: the \<^verbatim>\<open>Map\<close> itself, where a node is addressed by its key. (A node that
  \<^verbatim>\<open>nodeMap.set\<close> overwrites is never read again: both loops reach nodes through
  \<^verbatim>\<open>nodeMap.get\<close> only.) A \<^verbatim>\<open>children\<close> array holds references, that is keys.
\<close>

record TreeNode =
  concept :: Concept
  children :: "string list"

type_synonym NodeMap = "string \<rightharpoonup> TreeNode"

text \<open>The first loop of \<^verbatim>\<open>buildTree\<close>: one node for every concept, under its name.\<close>

definition create_nodes :: "Concept list \<Rightarrow> NodeMap" where
  "create_nodes cs = foldl (\<lambda>nodeMap c. nodeMap(name c \<mapsto> \<lparr>concept = c, children = []\<rparr>)) Map.empty cs"

text \<open>
  The body of the second loop, on the pair of \<^verbatim>\<open>nodeMap\<close> and \<^verbatim>\<open>roots\<close>: the node of the
  concept is pushed to the children of the node its parent names, when the parent is
  truthy and \<^verbatim>\<open>nodeMap.has\<close> it, and to \<^verbatim>\<open>roots\<close> otherwise.
\<close>

definition link_node :: "NodeMap \<times> string list \<Rightarrow> Concept \<Rightarrow> NodeMap \<times> string list" where
  "link_node acc c =
     (let (nodeMap, roots) = acc; node = name c
      in case (if truthy (parent c) then nodeMap (the (parent c)) else None) of
           Some parentNode \<Rightarrow>
             (nodeMap(the (parent c) \<mapsto> parentNode\<lparr>children := children parentNode @ [node]\<rparr>),
              roots)
         | None \<Rightarrow> (nodeMap, roots @ [node]))"

text \<open>\<^verbatim>\<open>buildTree\<close> returns \<^verbatim>\<open>roots\<close>; the nodes it refers to are in the map.\<close>

definition buildTree :: "Concept list \<Rightarrow> NodeMap \<times> string list" where
  "buildTree cs = foldl link_node (create_nodes cs, []) cs"

text \<open>
  The value the caller sees: the nodes read from the roots down. A reference is followed
  at most \<open>fuel\<close> times in depth; \<open>None\<close> says the fuel ran out or a reference has no node.
\<close>

datatype Tree = Tree Concept "Tree list"

fun materialize :: "nat \<Rightarrow> NodeMap \<Rightarrow> string \<Rightarrow> Tree option" where
  "materialize 0 nodeMap r = None"
| "materialize (Suc fuel) nodeMap r =
     (case nodeMap r of
        None \<Rightarrow> None
      | Some node \<Rightarrow>
          map_option (Tree (concept node)) (those (map (materialize fuel nodeMap) (children node))))"

definition forest :: "Concept list \<Rightarrow> Tree list option" where
  "forest cs = (let (nodeMap, roots) = buildTree cs
                in those (map (materialize (Suc (length cs)) nodeMap) roots))"

text \<open>The concepts of the nodes of a tree, and the concept of its root.\<close>

fun flatten :: "Tree \<Rightarrow> Concept list" where
  "flatten (Tree c ts) = c # concat (map flatten ts)"

fun root_concept :: "Tree \<Rightarrow> Concept" where
  "root_concept (Tree c ts) = c"

text \<open>
  The parent of a concept resolves: it is truthy and the name of a concept of the list.
  \<open>kids cs n\<close> are the names of the concepts whose parent is \<open>n\<close>, in the order of the list,
  and \<open>below cs n\<close> the concepts from whose name the parent edges lead to \<open>n\<close>.
\<close>

definition resolves :: "Concept list \<Rightarrow> Concept \<Rightarrow> bool" where
  "resolves cs c \<longleftrightarrow> truthy (parent c) \<and> the (parent c) \<in> name ` set cs"

definition kids :: "Concept list \<Rightarrow> string \<Rightarrow> string list" where
  "kids cs n = map name (filter (\<lambda>d. truthy (parent d) \<and> parent d = Some n) cs)"

definition below :: "Concept list \<Rightarrow> string \<Rightarrow> Concept set" where
  "below cs n = {d \<in> set cs. (name d, n) \<in> (parent_edges cs)\<^sup>*}"

section \<open>The codebase scanner (services/scanner.ts)\<close>

text \<open>
  The scanner reads strings as the repository does: a \<open>char\<close> is a code unit in 0..255.
\<close>

record ScanOptions =
  rootPath :: string
  includePatterns :: "string list option"
  excludePatterns :: "string list option"

record CodeLocation =
  file' :: string
  line :: nat
  context' :: string

text \<open>
  What \<^verbatim>\<open>new RegExp(pattern, 'gi').test(line)\<close> computes for the patterns the scanner
  builds, after ECMAScript: \<^verbatim>\<open>\w\<close> is \<^verbatim>\<open>[A-Za-z0-9_]\<close>; with the flag \<^verbatim>\<open>i\<close> (and without
  \<^verbatim>\<open>u\<close>) two characters match when their upper-case forms agree.
\<close>

definition is_word :: "char \<Rightarrow> bool" where
  "is_word c =
     (let n = of_char c :: nat
      in (48 \<le> n \<and> n \<le> 57) \<or> (65 \<le> n \<and> n \<le> 90) \<or> n = 95 \<or> (97 \<le> n \<and> n \<le> 122))"

definition canonicalize :: "char \<Rightarrow> char" where
  "canonicalize c =
     (let n = of_char c :: nat
      in if (97 \<le> n \<and> n \<le> 122) \<or> (224 \<le> n \<and> n \<le> 254 \<and> n \<noteq> 247)
         then char_of (n - 32) else c)"

text \<open>\<^verbatim>\<open>escapeRegex\<close>: the characters of the class \<^verbatim>\<open>[.*+?^${}()|[\]\\]\<close> get a backslash.\<close>

definition syntax_char :: "char \<Rightarrow> bool" where
  "syntax_char c \<longleftrightarrow> c \<in> set ''.*+?^${}()|[]'' \<or> c = CHR 0x5C"

definition escapeRegex :: "string \<Rightarrow> string" where
  "escapeRegex str = concat (map (\<lambda>c. if syntax_char c then [CHR 0x5C, c] else [c]) str)"

text \<open>The template literal: the escaped name between two \<^verbatim>\<open>\b\<close>.\<close>

definition name_pattern :: "string \<Rightarrow> string" where
  "name_pattern n = [CHR 0x5C, CHR ''b''] @ escapeRegex n @ [CHR 0x5C, CHR ''b'']"

text \<open>
  How the pattern is read: \<^verbatim>\<open>\b\<close> is the word-boundary assertion, a backslash before any
  other character makes it stand for itself, and every other character stands for itself
  (no syntax character is left unescaped by \<^verbatim>\<open>escapeRegex\<close>).
\<close>

datatype atom = Boundary | Lit char

fun parse_pattern :: "string \<Rightarrow> atom list" where
  "parse_pattern [] = []"
| "parse_pattern [c] = [Lit c]"
| "parse_pattern (c # d # rest) =
     (if c = CHR 0x5C then (if d = CHR ''b'' then Boundary else Lit d) # parse_pattern rest
      else Lit c # parse_pattern (d # rest))"

text \<open>
  There is a word boundary at position \<open>k\<close> of a line when exactly one of the characters
  before and at \<open>k\<close> is a word character (a position outside the line counts as none).
\<close>

definition boundary :: "string \<Rightarrow> nat \<Rightarrow> bool" where
  "boundary l k \<longleftrightarrow>
     (0 < k \<and> k \<le> length l \<and> is_word (l ! (k - 1))) \<noteq> (k < length l \<and> is_word (l ! k))"

fun match_atoms :: "atom list \<Rightarrow> string \<Rightarrow> nat \<Rightarrow> bool" where
  "match_atoms [] l k = True"
| "match_atoms (Boundary # as) l k = (boundary l k \<and> match_atoms as l k)"
| "match_atoms (Lit c # as) l k =
     (k < length l \<and> canonicalize (l ! k) = canonicalize c \<and> match_atoms as l (Suc k))"

text \<open>A fresh regular expression is tested on every line: a match may start anywhere.\<close>

definition regex_test :: "string \<Rightarrow> string \<Rightarrow> bool" where
  "regex_test pat l = list_ex (match_atoms (parse_pattern pat) l) [0..<Suc (length l)]"

text \<open>\<^verbatim>\<open>content.split('\n')\<close>, \<^verbatim>\<open>String.prototype.trim\<close> and \<^verbatim>\<open>slice(0, 100)\<close>.\<close>

fun split_on :: "char \<Rightarrow> string \<Rightarrow> string list" where
  "split_on sep [] = [[]]"
| "split_on sep (c # cs) =
     (if c = sep then [] # split_on sep cs
      else (case split_on sep cs of l # ls \<Rightarrow> (c # l) # ls | [] \<Rightarrow> [[c]]))"

definition is_space :: "char \<Rightarrow> bool" where
  "is_space c = (let n = of_char c :: nat in (9 \<le> n \<and> n \<le> 13) \<or> n = 32 \<or> n = 160)"

definition trim :: "string \<Rightarrow> string" where
  "trim s = rev (dropWhile is_space (rev (dropWhile is_space s)))"

text \<open>
  The body of the loop over the files of \<^verbatim>\<open>scanForConcept\<close>. The candidate files are what
  \<^verbatim>\<open>getFiles\<close> returns, each with what \<^verbatim>\<open>fs.readFile\<close> gives for it (\<open>None\<close> when it throws:
  the \<^verbatim>\<open>catch\<close> skips the file). \<open>relative\<close> is \<^verbatim>\<open>path.relative\<close> of Node.
\<close>

definition scan_file ::
  "(string \<Rightarrow> string \<Rightarrow> string) \<Rightarrow> ScanOptions \<Rightarrow> Concept \<Rightarrow> string \<times> string option
     \<Rightarrow> CodeLocation list" where
  "scan_file relative options c f =
     (case snd f of
        None \<Rightarrow> []
      | Some text \<Rightarrow>
          (let lines = split_on (CHR 0x0A) text
           in map (\<lambda>i. \<lparr>file' = relative (rootPath options) (fst f), line = i + 1,
                         context' = take 100 (trim (lines ! i))\<rparr>)
                (filter (\<lambda>i. regex_test (name_pattern (name c)) (lines ! i)) [0..<length lines])))"

definition scanForConcept ::
  "(string \<Rightarrow> string \<Rightarrow> string) \<Rightarrow> (string \<times> string option) list \<Rightarrow> Concept \<Rightarrow> ScanOptions
     \<Rightarrow> CodeLocation list" where
  "scanForConcept relative files c options = concat (map (scan_file relative options c) files)"

definition scanAllConcepts ::
  "(string \<Rightarrow> string \<Rightarrow> string) \<Rightarrow> (string \<times> string option) list \<Rightarrow> Concept list \<Rightarrow> ScanOptions
     \<Rightarrow> (string \<rightharpoonup> CodeLocation list)" where
  "scanAllConcepts relative files cs options =
     foldl (\<lambda>results c.
              (let locations = scanForConcept relative files c options
               in if length locations > 0 then results(id' c \<mapsto> locations) else results))
       Map.empty cs"

text \<open>
  A case-insensitive whole-word match, in the words of the specification: the name
  occurs at \<open>k\<close>, up to case, and is not part of a longer word, that is no word character
  stands right before or right after the occurrence. A word character is a character of
  \<^verbatim>\<open>\w\<close>, one of the 63 ASCII characters \<^verbatim>\<open>[A-Za-z0-9_]\<close>: every other character, an
  accented letter included, separates words.
\<close>

definition whole_word_at :: "string \<Rightarrow> string \<Rightarrow> nat \<Rightarrow> bool" where
  "whole_word_at n l k \<longleftrightarrow>
     k + length n \<le> length l \<and>
     map canonicalize (take (length n) (drop k l)) = map canonicalize n \<and>
     (k = 0 \<or> \<not> is_word (l ! (k - 1))) \<and>
     (k + length n = length l \<or> \<not> is_word (l ! (k + length n)))"

definition whole_word_match :: "string \<Rightarrow> string \<Rightarrow> bool" where
  "whole_word_match n l \<longleftrightarrow> (\<exists>k. whole_word_at n l k)"

text \<open>
  What the regular expression asks for instead: the name occurs at \<open>k\<close>, up to case,
  between two word boundaries.
\<close>

definition word_bounded_at :: "string \<Rightarrow> string \<Rightarrow> nat \<Rightarrow> bool" where
  "word_bounded_at n l k \<longleftrightarrow>
     k + length n \<le> length l \<and>
     map canonicalize (take (length n) (drop k l)) = map canonicalize n \<and>
     boundary l k \<and> boundary l (k + length n)"

text \<open>A name that begins and ends with a word character, that is one of \<^verbatim>\<open>[A-Za-z0-9_]\<close>.\<close>

definition word_edged :: "string \<Rightarrow> bool" where
  "word_edged n \<longleftrightarrow> n \<noteq> [] \<and> is_word (hd n) \<and> is_word (last n)"

section \<open>JSON export (services/export.ts)\<close>

subsection \<open>JavaScript values and \<^verbatim>\<open>JSON.stringify(value, null, 2)\<close>\<close>

text \<open>
  \<^verbatim>\<open>exportAsJson\<close> builds a JavaScript object and hands it to \<^verbatim>\<open>JSON.stringify(_, null, 2)\<close>.
  The values it can build are modelled by \<open>json\<close>: \<^verbatim>\<open>null\<close>, booleans, the natural numbers
  (the only number is \<^verbatim>\<open>concepts.length\<close>), strings, arrays, objects as lists of
  properties in insertion order, and \<^verbatim>\<open>undefined\<close> (the value of \<^verbatim>\<open>c.parent\<close> for a root).
\<close>

datatype json =
    JNull
  | JBool bool
  | JNumber nat
  | JString string
  | JArray "json list"
  | JObject "(string \<times> json) list"
  | JUndefined

text \<open>
  The serialiser follows \<^verbatim>\<open>SerializeJSONProperty\<close> of ECMA-262 with a gap of two spaces:
  \<open>serialize ind v\<close> is the text of \<open>v\<close> at the indentation \<open>ind\<close>. A property whose value
  is \<^verbatim>\<open>undefined\<close> is left out of its object, an \<^verbatim>\<open>undefined\<close> array element is written
  \<^verbatim>\<open>null\<close>, an empty array or object is written \<^verbatim>\<open>[]\<close> or \<^verbatim>\<open>{}\<close>. \<open>quote\<close> is
  \<^verbatim>\<open>QuoteJSONString\<close>: the quotation mark, the backslash and the control characters are
  escaped, every other code unit is copied.
\<close>

definition spaces :: "nat \<Rightarrow> string" where
  "spaces n = replicate n (CHR '' '')"

fun join :: "string \<Rightarrow> string list \<Rightarrow> string" where
  "join sep [] = []"
| "join sep [x] = x"
| "join sep (x # y # ys) = x @ sep @ join sep (y # ys)"

definition hexdigit :: "nat \<Rightarrow> char" where
  "hexdigit d = (if d < 10 then char_of (48 + d) else char_of (87 + d))"

definition escape_char :: "char \<Rightarrow> string" where
  "escape_char c =
     (if c = CHR 0x22 then [CHR 0x5C, CHR 0x22]
      else if c = CHR 0x5C then [CHR 0x5C, CHR 0x5C]
      else if c = CHR 0x08 then [CHR 0x5C, CHR ''b'']
      else if c = CHR 0x0C then [CHR 0x5C, CHR ''f'']
      else if c = CHR 0x0A then [CHR 0x5C, CHR ''n'']
      else if c = CHR 0x0D then [CHR 0x5C, CHR ''r'']
      else if c = CHR 0x09 then [CHR 0x5C, CHR ''t'']
      else if (of_char c :: nat) < 32
        then [CHR 0x5C, CHR ''u'', CHR ''0'', CHR ''0'',
              hexdigit (of_char c div 16), hexdigit (of_char c mod 16)]
      else [c])"

definition quote :: "string \<Rightarrow> string" where
  "quote s = [CHR 0x22] @ concat (map escape_char s) @ [CHR 0x22]"

fun digits :: "nat \<Rightarrow> string" where
  "digits n = (if n < 10 then [char_of (48 + n)] else digits (n div 10) @ [char_of (48 + n mod 10)])"

declare digits.simps [simp del]

fun serialize :: "nat \<Rightarrow> json \<Rightarrow> string" where
  "serialize ind JNull = ''null''"
| "serialize ind JUndefined = ''null''"
| "serialize ind (JBool b) = (if b then ''true'' else ''false'')"
| "serialize ind (JNumber n) = digits n"
| "serialize ind (JString s) = quote s"
| "serialize ind (JArray vs) =
     (if vs = [] then ''[]''
      else ''['' @ [CHR 0x0A] @ spaces (ind + 2) @
           join ('','' @ [CHR 0x0A] @ spaces (ind + 2)) (map (serialize (ind + 2)) vs) @
           [CHR 0x0A] @ spaces ind @ '']'')"
| "serialize ind (JObject ps) =
     (if filter (\<lambda>p. snd p \<noteq> JUndefined) ps = [] then ''{}''
      else ''{'' @ [CHR 0x0A] @ spaces (ind + 2) @
           join ('','' @ [CHR 0x0A] @ spaces (ind + 2))
             (map (\<lambda>p. quote (fst p) @ '': '' @ serialize (ind + 2) (snd p))
                (filter (\<lambda>p. snd p \<noteq> JUndefined) ps)) @
           [CHR 0x0A] @ spaces ind @ ''}'')"

subsection \<open>\<^verbatim>\<open>JSON.parse\<close>\<close>

text \<open>
  The reader of the emitted document: the JSON grammar of ECMA-404 for the values above
  (numbers without sign, fraction and exponent). \<open>parse_value\<close>, \<open>parse_items\<close> and
  \<open>parse_members\<close> return the value read and the rest of the text, \<open>None\<close> standing for the
  \<^verbatim>\<open>SyntaxError\<close>; they recurse on a fuel that \<open>JSON_parse\<close> sets from the length of the text,
  and \<open>JSON_parse\<close> accepts only white space after the value. A property named twice
  keeps its first position and its last value, as \<^verbatim>\<open>CreateDataProperty\<close> does.
\<close>

definition is_ws :: "char \<Rightarrow> bool" where
  "is_ws c \<longleftrightarrow> c = CHR '' '' \<or> c = CHR 0x09 \<or> c = CHR 0x0A \<or> c = CHR 0x0D"

definition skip_ws :: "string \<Rightarrow> string" where
  "skip_ws s = dropWhile is_ws s"

definition is_digit :: "char \<Rightarrow> bool" where
  "is_digit c \<longleftrightarrow> 48 \<le> (of_char c :: nat) \<and> (of_char c :: nat) \<le> 57"

definition hexval :: "char \<Rightarrow> nat option" where
  "hexval c =
     (let n = of_char c :: nat
      in if 48 \<le> n \<and> n \<le> 57 then Some (n - 48)
         else if 97 \<le> n \<and> n \<le> 102 then Some (n - 87)
         else if 65 \<le> n \<and> n \<le> 70 then Some (n - 55)
         else None)"

fun unescape :: "string \<Rightarrow> (char \<times> string) option" where
  "unescape [] = None"
| "unescape (e # rest) =
     (if e = CHR 0x22 then Some (CHR 0x22, rest)
      else if e = CHR 0x5C then Some (CHR 0x5C, rest)
      else if e = CHR ''/'' then Some (CHR ''/'', rest)
      else if e = CHR ''b'' then Some (CHR 0x08, rest)
      else if e = CHR ''f'' then Some (CHR 0x0C, rest)
      else if e = CHR ''n'' then Some (CHR 0x0A, rest)
      else if e = CHR ''r'' then Some (CHR 0x0D, rest)
      else if e = CHR ''t'' then Some (CHR 0x09, rest)
      else if e = CHR ''u'' then
        (case rest of
           a # b # c # d # rest' \<Rightarrow>
             (case (hexval a, hexval b, hexval c, hexval d) of
                (Some x3, Some x2, Some x1, Some x0) \<Rightarrow>
                  (if x3 = 0 \<and> x2 = 0 then Some (char_of (16 * x1 + x0), rest') else None)
              | _ \<Rightarrow> None)
         | _ \<Rightarrow> None)
      else None)"

lemma unescape_shorter: "unescape cs = Some (x, rest) \<Longrightarrow> length rest < length cs"
proof (cases cs)
  case Nil
  then show "unescape cs = Some (x, rest) \<Longrightarrow> length rest < length cs" by simp
next
  case (Cons e r)
  assume u: "unescape cs = Some (x, rest)"
  show "length rest < length cs"
  proof (cases "e = CHR ''u''")
    case False
    with u Cons show ?thesis by (auto split: if_splits)
  next
    case True
    with u Cons obtain a b c d where "r = a # b # c # d # rest"
      by (auto split: list.splits option.splits if_splits)
    with Cons show ?thesis by simp
  qed
qed

function parse_chars :: "string \<Rightarrow> (string \<times> string) option" where
  "parse_chars [] = None"
| "parse_chars (c # cs) =
     (if c = CHR 0x22 then Some ([], cs)
      else if c = CHR 0x5C then
        (case unescape cs of
           None \<Rightarrow> None
         | Some (x, rest) \<Rightarrow>
             (case parse_chars rest of None \<Rightarrow> None | Some (xs, r) \<Rightarrow> Some (x # xs, r)))
      else if (of_char c :: nat) < 32 then None
      else (case parse_chars cs of None \<Rightarrow> None | Some (xs, r) \<Rightarrow> Some (c # xs, r)))"
  by pat_completeness auto

termination parse_chars
proof (relation "measure length")
  show "wf (measure length)" by simp
next
  fix c :: char and cs :: string and p :: "char \<times> string" and x :: char and rest :: string
  assume "unescape cs = Some p" "(x, rest) = p"
  then have "length rest < length cs" using unescape_shorter[of cs x rest] by simp
  then show "(rest, c # cs) \<in> measure length" by simp
next
  fix c :: char and cs :: string
  show "(cs, c # cs) \<in> measure length" by simp
qed

definition digit_value :: "char \<Rightarrow> nat" where
  "digit_value c = of_char c - 48"

definition parse_number :: "string \<Rightarrow> (nat \<times> string) option" where
  "parse_number s =
     (let ds = takeWhile is_digit s; rest = dropWhile is_digit s
      in if ds = [] then None
         else if hd ds = CHR ''0'' \<and> length ds > 1 then None
         else if rest \<noteq> [] \<and> hd rest \<in> set ''.eE'' then None
         else Some (foldl (\<lambda>n c. 10 * n + digit_value c) 0 ds, rest))"

definition set_property :: "(string \<times> json) list \<Rightarrow> string \<Rightarrow> json \<Rightarrow> (string \<times> json) list" where
  "set_property ps k v =
     (if k \<in> fst ` set ps then map (\<lambda>p. if fst p = k then (k, v) else p) ps else ps @ [(k, v)])"

fun parse_value :: "nat \<Rightarrow> string \<Rightarrow> (json \<times> string) option"
  and parse_items :: "nat \<Rightarrow> string \<Rightarrow> json list \<Rightarrow> (json \<times> string) option"
  and parse_members :: "nat \<Rightarrow> string \<Rightarrow> (string \<times> json) list \<Rightarrow> (json \<times> string) option"
where
  "parse_value 0 s = None"
| "parse_value (Suc fuel) s =
     (case skip_ws s of
        [] \<Rightarrow> None
      | c # r \<Rightarrow>
          if c = CHR 0x22 then
            (case parse_chars r of None \<Rightarrow> None | Some (x, r') \<Rightarrow> Some (JString x, r'))
          else if c = CHR ''['' then
            (case skip_ws r of
               [] \<Rightarrow> None
             | d # r' \<Rightarrow> if d = CHR '']'' then Some (JArray [], r') else parse_items fuel r [])
          else if c = CHR ''{'' then
            (case skip_ws r of
               [] \<Rightarrow> None
             | d # r' \<Rightarrow> if d = CHR ''}'' then Some (JObject [], r') else parse_members fuel r [])
          else if is_digit c then
            (case parse_number (c # r) of None \<Rightarrow> None | Some (n, r') \<Rightarrow> Some (JNumber n, r'))
          else if take 4 (c # r) = ''null'' then Some (JNull, drop 4 (c # r))
          else if take 4 (c # r) = ''true'' then Some (JBool True, drop 4 (c # r))
          else if take 5 (c # r) = ''false'' then Some (JBool False, drop 5 (c # r))
          else None)"
| "parse_items 0 s acc = None"
| "parse_items (Suc fuel) s acc =
     (case parse_value fuel s of
        None \<Rightarrow> None
      | Some (v, r) \<Rightarrow>
          (case skip_ws r of
             [] \<Rightarrow> None
           | c # r' \<Rightarrow>
               if c = CHR '','' then parse_items fuel r' (acc @ [v])
               else if c = CHR '']'' then Some (JArray (acc @ [v]), r')
               else None))"
| "parse_members 0 s acc = None"
| "parse_members (Suc fuel) s acc =
     (case skip_ws s of
        [] \<Rightarrow> None
      | q # r \<Rightarrow>
          if q \<noteq> CHR 0x22 then None
          else
            (case parse_chars r of
               None \<Rightarrow> None
             | Some (k, r1) \<Rightarrow>
                 (case skip_ws r1 of
                    [] \<Rightarrow> None
                  | c # r2 \<Rightarrow>
                      if c \<noteq> CHR '':'' then None
                      else
                        (case parse_value fuel r2 of
                           None \<Rightarrow> None
                         | Some (v, r3) \<Rightarrow>
                             (case skip_ws r3 of
                                [] \<Rightarrow> None
                              | d # r4 \<Rightarrow>
                                  if d = CHR '','' then parse_members fuel r4 (set_property acc k v)
                                  else if d = CHR ''}'' then Some (JObject (set_property acc k v), r4)
                                  else None)))))"

definition JSON_parse :: "string \<Rightarrow> json option" where
  "JSON_parse s =
     (case parse_value (2 * length s + 2) s of
        None \<Rightarrow> None
      | Some (v, r) \<Rightarrow> if skip_ws r = [] then Some v else None)"

subsection \<open>What a document is read back as\<close>

text \<open>
  \<open>prune v\<close> is the value that the text of \<open>v\<close> denotes: \<^verbatim>\<open>undefined\<close> properties are gone
  and \<^verbatim>\<open>undefined\<close> elements have become \<^verbatim>\<open>null\<close>. \<open>well_formed\<close> holds when no object
  names a property twice. \<open>round_trips v\<close> says that the text of \<open>v\<close>, at any indentation,
  after any white space and before any text that starts like the text after a value
  in an array or object, is read as \<open>prune v\<close>, given fuel for twice its length.
\<close>

fun prune :: "json \<Rightarrow> json" where
  "prune JUndefined = JNull"
| "prune (JArray vs) = JArray (map prune vs)"
| "prune (JObject ps) =
     JObject (map (\<lambda>p. (fst p, prune (snd p))) (filter (\<lambda>p. snd p \<noteq> JUndefined) ps))"
| "prune v = v"

fun well_formed :: "json \<Rightarrow> bool" where
  "well_formed (JArray vs) = list_all well_formed vs"
| "well_formed (JObject ps) = (distinct (map fst ps) \<and> list_all (\<lambda>p. well_formed (snd p)) ps)"
| "well_formed v = True"

definition value_end :: "string \<Rightarrow> bool" where
  "value_end rest \<longleftrightarrow> rest = [] \<or> hd rest = CHR '','' \<or> hd rest = CHR 0x0A"

definition round_trips :: "json \<Rightarrow> bool" where
  "round_trips v \<longleftrightarrow>
     (\<forall>ind fuel W rest.
        list_all is_ws W \<longrightarrow> value_end rest \<longrightarrow>
        2 * length (W @ serialize ind v @ rest) \<le> fuel \<longrightarrow>
        parse_value fuel (W @ serialize ind v @ rest) = Some (prune v, rest))"

definition number_end :: "string \<Rightarrow> bool" where
  "number_end rest \<longleftrightarrow> rest = [] \<or> (\<not> is_digit (hd rest) \<and> hd rest \<notin> set ''.eE'')"

subsection \<open>\<^verbatim>\<open>ExportService.exportAsJson\<close>\<close>

text \<open>
  \<^verbatim>\<open>ExportOptions\<close>, with \<open>None\<close> for an option that is not given. \<open>concept_data\<close> is the
  object \<^verbatim>\<open>data\<close> built for one concept: seven properties, then \<^verbatim>\<open>chatSnippets\<close> unless
  \<^verbatim>\<open>options.includeSnippets === false\<close>, then \<^verbatim>\<open>codeLocations\<close> unless
  \<^verbatim>\<open>options.includeCodeLocations === false\<close>. \<open>exportAsJson\<close> wraps the list in the envelope
  \<^verbatim>\<open>{exportedAt, count, concepts}\<close>; the time stamp is a reading of the clock.
  \<^verbatim>\<open>exportConcepts\<close> calls it with the concepts selected by \<^verbatim>\<open>options.conceptIds\<close>.
\<close>

datatype ExportFormat = json_format | markdown_format

record ExportOptions =
  format :: ExportFormat
  conceptIds :: "string list option"
  includeSnippets :: "bool option"
  includeCodeLocations :: "bool option"

fun category_string :: "ConceptCategory \<Rightarrow> string" where
  "category_string language = ''language''"
| "category_string library = ''library''"
| "category_string pattern = ''pattern''"
| "category_string architecture = ''architecture''"

fun optional_string :: "string option \<Rightarrow> json" where
  "optional_string None = JUndefined"
| "optional_string (Some s) = JString s"

definition snippet_value :: "ChatSnippet \<Rightarrow> json" where
  "snippet_value s = JObject [(''timestamp'', JString (timestamp s)), (''content'', JString (content s))]"

definition concept_data :: "ExportOptions \<Rightarrow> Concept \<Rightarrow> json" where
  "concept_data options c =
     JObject
       ([(''id'', JString (id' c)),
         (''name'', JString (name c)),
         (''category'', JString (category_string (category c))),
         (''parent'', optional_string (parent c)),
         (''explanation'', JString (explanation c)),
         (''firstSeen'', JString (firstSeen c)),
         (''lastSeen'', JString (lastSeen c))] @
        (if includeSnippets options \<noteq> Some False
         then [(''chatSnippets'', JArray (map snippet_value (chatSnippets c)))] else []) @
        (if includeCodeLocations options \<noteq> Some False
         then [(''codeLocations'', JArray (map JString (codeLocations c)))] else []))"

definition exportAsJson :: "Runtime \<Rightarrow> nat \<Rightarrow> Concept list \<Rightarrow> ExportOptions \<Rightarrow> string" where
  "exportAsJson rt t cs options =
     serialize 0
       (JObject [(''exportedAt'', JString (date_at rt t)),
                 (''count'', JNumber (length cs)),
                 (''concepts'', JArray (map (concept_data options) cs))])"

subsection \<open>Reading the exported concepts back\<close>

text \<open>
  The comparison of the claim on the round trip: \<open>reparse_concepts\<close> parses a document,
  takes the array \<^verbatim>\<open>concepts\<close> and reads every element as a record of the exported fields.
  \<open>property v k\<close> is the property access \<^verbatim>\<open>v[k]\<close> (\<^verbatim>\<open>undefined\<close> when there is none). A field
  is read as a string, a category, a list of snippets or a list of strings; \<open>read_concept\<close>
  is \<open>None\<close> when a field does not have its type, and \<open>optional\<close> admits \<^verbatim>\<open>undefined\<close>.
  \<open>included_fields options c\<close> is the record of the original values of the fields that the
  options include.
\<close>

fun property :: "json \<Rightarrow> string \<Rightarrow> json" where
  "property (JObject ps) k = (case map_of ps k of None \<Rightarrow> JUndefined | Some v \<Rightarrow> v)"
| "property v k = JUndefined"

fun as_string :: "json \<Rightarrow> string option" where
  "as_string (JString s) = Some s"
| "as_string v = None"

definition as_category :: "json \<Rightarrow> ConceptCategory option" where
  "as_category v =
     (case as_string v of
        None \<Rightarrow> None
      | Some s \<Rightarrow>
          if s = ''language'' then Some language
          else if s = ''library'' then Some library
          else if s = ''pattern'' then Some pattern
          else if s = ''architecture'' then Some architecture
          else None)"

definition as_snippet :: "json \<Rightarrow> ChatSnippet option" where
  "as_snippet v =
     (case (as_string (property v ''timestamp''), as_string (property v ''content'')) of
        (Some t, Some c) \<Rightarrow> Some \<lparr>timestamp = t, content = c\<rparr>
      | _ \<Rightarrow> None)"

fun read_all :: "(json \<Rightarrow> 'a option) \<Rightarrow> json list \<Rightarrow> 'a list option" where
  "read_all f [] = Some []"
| "read_all f (v # vs) =
     (case f v of
        None \<Rightarrow> None
      | Some x \<Rightarrow> (case read_all f vs of None \<Rightarrow> None | Some xs \<Rightarrow> Some (x # xs)))"

fun as_list :: "(json \<Rightarrow> 'a option) \<Rightarrow> json \<Rightarrow> 'a list option" where
  "as_list f (JArray vs) = read_all f vs"
| "as_list f v = None"

definition optional :: "(json \<Rightarrow> 'a option) \<Rightarrow> json \<Rightarrow> 'a option option" where
  "optional f v = (if v = JUndefined then Some None else map_option Some (f v))"

record ExportedConcept =
  x_id :: string
  x_name :: string
  x_category :: ConceptCategory
  x_parent :: "string option"
  x_explanation :: string
  x_firstSeen :: string
  x_lastSeen :: string
  x_chatSnippets :: "ChatSnippet list option"
  x_codeLocations :: "string list option"

definition read_concept :: "json \<Rightarrow> ExportedConcept option" where
  "read_concept v =
     (case as_string (property v ''id'') of None \<Rightarrow> None | Some i \<Rightarrow>
     (case as_string (property v ''name'') of None \<Rightarrow> None | Some n \<Rightarrow>
     (case as_category (property v ''category'') of None \<Rightarrow> None | Some k \<Rightarrow>
     (case optional as_string (property v ''parent'') of None \<Rightarrow> None | Some p \<Rightarrow>
     (case as_string (property v ''explanation'') of None \<Rightarrow> None | Some e \<Rightarrow>
     (case as_string (property v ''firstSeen'') of None \<Rightarrow> None | Some f \<Rightarrow>
     (case as_string (property v ''lastSeen'') of None \<Rightarrow> None | Some l \<Rightarrow>
     (case optional (as_list as_snippet) (property v ''chatSnippets'') of None \<Rightarrow> None | Some ss \<Rightarrow>
     (case optional (as_list as_string) (property v ''codeLocations'') of None \<Rightarrow> None | Some ls \<Rightarrow>
        Some \<lparr>x_id = i, x_name = n, x_category = k, x_parent = p, x_explanation = e,
              x_firstSeen = f, x_lastSeen = l, x_chatSnippets = ss, x_codeLocations = ls\<rparr>)))))))))"

definition included_fields :: "ExportOptions \<Rightarrow> Concept \<Rightarrow> ExportedConcept" where
  "included_fields options c =
     \<lparr>x_id = id' c, x_name = name c, x_category = category c, x_parent = parent c,
      x_explanation = explanation c, x_firstSeen = firstSeen c, x_lastSeen = lastSeen c,
      x_chatSnippets = (if includeSnippets options \<noteq> Some False then Some (chatSnippets c) else None),
      x_codeLocations =
        (if includeCodeLocations options \<noteq> Some False then Some (codeLocations c) else None)\<rparr>"

definition reparse_concepts :: "string \<Rightarrow> ExportedConcept option list option" where
  "reparse_concepts document =
     (case JSON_parse document of
        None \<Rightarrow> None
      | Some doc \<Rightarrow>
          (case property doc ''concepts'' of
             JArray items \<Rightarrow> Some (map read_concept items)
           | _ \<Rightarrow> None))"

subsection \<open>Sample runtime and stores\<close>

text \<open>
  A runtime and a few stores on which the operations are run: the clock reads
  \<^verbatim>\<open>t\<close>, \<^verbatim>\<open>t+\<close>, \<^verbatim>\<open>t++\<close>, ..., the ids are \<^verbatim>\<open>id\<close>, \<^verbatim>\<open>id#\<close>, ..., and no file content parses.
\<close>

definition rt0 :: Runtime where
  "rt0 = \<lparr>date_at = (\<lambda>k. ''t'' @ replicate k (CHR ''+'')),
          uuid_at = (\<lambda>k. ''id'' @ replicate k (CHR ''#'')),
          stringify = (\<lambda>st. concat (map name (concepts st))),
          parse = (\<lambda>d. None)\<rparr>"

definition svc0 :: StorageService where
  "svc0 = \<lparr>store = None, disk = None, mkdir_ok = True, write_ok = True, clock = 0, uuids = 0\<rparr>"

definition mk_concept :: "string \<Rightarrow> string \<Rightarrow> string option \<Rightarrow> Concept" where
  "mk_concept i n p =
     \<lparr>id' = i, name = n, category = library, parent = p, explanation = ''about '' @ n,
      chatSnippets = [], codeLocations = [], firstSeen = ''t0'', lastSeen = ''t0''\<rparr>"

definition store_of :: "Concept list \<Rightarrow> ConceptStore" where
  "store_of cs = \<lparr>version = ''1.0.0'', concepts = cs, lastUpdated = ''t0''\<rparr>"

definition hooks :: Concept where
  "hooks = mk_concept ''a'' ''React Hooks'' None"

definition useState :: Concept where
  "useState = mk_concept ''b'' ''useState'' (Some ''React Hooks'')"

definition ex_useState :: ExtractedConcept where
  "ex_useState =
     \<lparr>ExtractedConcept.name = ''useState'', ExtractedConcept.category = library,
      ExtractedConcept.parent = Some ''React Hooks'',
      ExtractedConcept.explanation = ''state hook''\<rparr>"

definition ex_hooks :: ExtractedConcept where
  "ex_hooks =
     \<lparr>ExtractedConcept.name = ''react hooks'', ExtractedConcept.category = library,
      ExtractedConcept.parent = None, ExtractedConcept.explanation = ''hooks''\<rparr>"



definition loop_concept :: Concept where
  "loop_concept = mk_concept ''c'' ''Loop'' (Some ''Loop'')"

definition svc_with :: "Concept list \<Rightarrow> StorageService" where
  "svc_with cs = svc0\<lparr>store := Some (store_of cs)\<rparr>"

definition relative0 :: "string \<Rightarrow> string \<Rightarrow> string" where
  "relative0 root f = drop (Suc (length root)) f"

definition options0 :: ScanOptions where
  "options0 = \<lparr>rootPath = ''/p'', includePatterns = None, excludePatterns = None\<rparr>"

definition cpp :: Concept where
  "cpp = mk_concept ''c1'' ''C++'' None"

definition lines_text :: "string list \<Rightarrow> string" where
  "lines_text ls = concat (map (\<lambda>l. l @ [CHR 0x0A]) ls)"

definition file_A :: "string \<times> string option" where
  "file_A = (''/p/A.ts'',
     Some (lines_text [''import x'', '''', ''f() {'', '' // s'',
            ''  n = useState(0);'', ''}'']))"

definition file_B :: "string \<times> string option" where
  "file_B = (''/p/B.ts'', Some (lines_text [''export const x = 1;'']))"

lemmas fixture_defs = hooks_def useState_def mk_concept_def store_of_def

subsection \<open>Sample export\<close>

text \<open>A snippet with a quotation mark and a line break, and options without code locations.\<close>

definition quoted_snippet :: ChatSnippet where
  "quoted_snippet = \<lparr>timestamp = ''t1'', content = [CHR ''a'', CHR 0x22, CHR 0x0A, CHR ''b'']\<rparr>"

definition export_options :: ExportOptions where
  "export_options = \<lparr>format = json_format, conceptIds = None, includeSnippets = None,
                     includeCodeLocations = Some False\<rparr>"

definition noted :: Concept where
  "noted = useState\<lparr>chatSnippets := [quoted_snippet]\<rparr>"

section \<open>Properties of the repository\<close>

subsection \<open>Loading, saving, looking up\<close>

lemma load_cached: "store s = Some st \<Longrightarrow> load E s = (st, s)"
  by (simp add: load_def)
lemma load_store: "load E s = (st, s1) \<Longrightarrow> store s1 = Some st"
  unfolding load_def Let_def by (cases "store s"; cases "read_store E s") auto
lemma load_disk: "load E s = (st, s1) \<Longrightarrow> disk s1 = disk s"
  unfolding load_def Let_def by (cases "store s"; cases "read_store E s") auto
lemma load_io: "load E s = (st, s1) \<Longrightarrow> mkdir_ok s1 = mkdir_ok s \<and> write_ok s1 = write_ok s"
  unfolding load_def Let_def by (cases "store s"; cases "read_store E s") auto
lemma load_idem: "load E s = (st, s1) \<Longrightarrow> load E s1 = (st, s1)"
  by (rule load_cached) (rule load_store)

lemma findIndex_Some:
  "findIndex P xs = Some k \<Longrightarrow> k < length xs \<and> P (xs ! k) \<and> (\<forall>j<k. \<not> P (xs ! j))"
proof (induction xs arbitrary: k)
  case Nil then show ?case by simp
next
  case (Cons x xs)
  show ?case
  proof (cases "P x")
    case True with Cons.prems show ?thesis by simp
  next
    case False
    with Cons.prems obtain k' where k': "findIndex P xs = Some k'" "k = Suc k'" by auto
    from Cons.IH[OF k'(1)] False k'(2) show ?thesis
      by (auto simp: less_Suc_eq_0_disj)
  qed
qed

lemma findIndex_None: "findIndex P xs = None \<longleftrightarrow> (\<forall>x\<in>set xs. \<not> P x)"
  by (induction xs) auto

lemma find_findIndex: "find P xs = map_option (nth xs) (findIndex P xs)"
  by (induction xs) (auto simp: option.map_comp comp_def)

lemma save_ok:
  assumes "store s = Some st" "mkdir_ok s" "write_ok s"
  shows "save E s = (Inr (), s\<lparr>store := Some (st\<lparr>lastUpdated := date_at E (clock s)\<rparr>),
           clock := Suc (clock s),
           disk := Some (stringify E (st\<lparr>lastUpdated := date_at E (clock s)\<rparr>))\<rparr>)"
  using assms by (simp add: save_def Let_def)

lemma save_store:
  assumes "store s = Some st" "save E s = (r, s')"
  shows "\<exists>st'. store s' = Some st' \<and> concepts st' = concepts st \<and> version st' = version st"
  using assms by (cases "mkdir_ok s"; cases "write_ok s") (auto simp: save_def Let_def)

lemma updateConcept_found:
  assumes l: "load E s = (st, s1)" and f: "findIndex (\<lambda>c. id' c = i) (concepts st) = Some k"
  shows "updateConcept E s i u =
     (case save E (s1\<lparr>clock := Suc (clock s1),
                      store := Some (st\<lparr>concepts := (concepts st)
                         [k := apply_updates (date_at E (clock s1)) u (concepts st ! k)]\<rparr>)\<rparr>) of
        (Inl e, s3) \<Rightarrow> (Inl e, s3)
      | (Inr x, s3) \<Rightarrow> (Inr (apply_updates (date_at E (clock s1)) u (concepts st ! k)), s3))"
  unfolding updateConcept_def l by (simp add: f Let_def)

lemma updateConcept_missing:
  assumes l: "load E s = (st, s1)" and f: "findIndex (\<lambda>c. id' c = i) (concepts st) = None"
  shows "updateConcept E s i u = (Inl (ConceptNotFound i), s1)"
  unfolding updateConcept_def l by (simp add: f)

lemma updateConcept_store:
  assumes l: "load E s = (st, s1)" and f: "findIndex (\<lambda>c. id' c = i) (concepts st) = Some k"
  shows "\<exists>st'. store (snd (updateConcept E s i u)) = Some st' \<and>
           concepts st' = (concepts st)[k := apply_updates (date_at E (clock s1)) u (concepts st ! k)]"
proof -
  let ?s2 = "s1\<lparr>clock := Suc (clock s1),
                      store := Some (st\<lparr>concepts := (concepts st)
                         [k := apply_updates (date_at E (clock s1)) u (concepts st ! k)]\<rparr>)\<rparr>"
  obtain r s3 where sv: "save E ?s2 = (r, s3)" by (cases "save E ?s2")
  have "store ?s2 = Some (st\<lparr>concepts := (concepts st)
                         [k := apply_updates (date_at E (clock s1)) u (concepts st ! k)]\<rparr>)" by simp
  from save_store[OF this sv] obtain st' where
    "store s3 = Some st'" "concepts st' = (concepts st)[k := apply_updates (date_at E (clock s1)) u (concepts st ! k)]"
    by auto
  moreover have "snd (updateConcept E s i u) = s3"
    unfolding updateConcept_found[OF l f] sv by (cases r) simp_all
  ultimately show ?thesis by simp
qed

lemma updateConcept_ok:
  assumes l: "load E s = (st, s1)" and f: "findIndex (\<lambda>c. id' c = i) (concepts st) = Some k"
    and io: "mkdir_ok s" "write_ok s"
  shows "fst (updateConcept E s i u) = Inr (apply_updates (date_at E (clock s1)) u (concepts st ! k)) \<and>
         (\<exists>st'. store (snd (updateConcept E s i u)) = Some st' \<and>
                disk (snd (updateConcept E s i u)) = Some (stringify E st'))"
proof -
  let ?st2 = "st\<lparr>concepts := (concepts st)
                         [k := apply_updates (date_at E (clock s1)) u (concepts st ! k)]\<rparr>"
  let ?s2 = "s1\<lparr>clock := Suc (clock s1), store := Some ?st2\<rparr>"
  have io1: "mkdir_ok ?s2" "write_ok ?s2" using load_io[OF l] io by simp_all
  have st: "store ?s2 = Some ?st2" by simp
  show ?thesis
    unfolding updateConcept_found[OF l f] save_ok[OF st io1] by simp
qed

lemma load_fallback:
  assumes "store s = None" and "read_store E s = Inl e"
  shows "load E s = (empty_store (date_at E (clock s)),
           s\<lparr>store := Some (empty_store (date_at E (clock s))), clock := Suc (clock s)\<rparr>)"
  using assms by (simp add: load_def Let_def)

lemma read_store_fails:
  assumes "\<not> mkdir_ok s \<or> disk s = None \<or> (\<exists>d. disk s = Some d \<and> parse E d = None)"
  shows "\<exists>e. read_store E s = Inl e"
  using assms by (cases "disk s") (auto simp: read_store_def)

lemma load_uuids: "load E s = (st, s1) \<Longrightarrow> uuids s1 = uuids s"
  unfolding load_def Let_def by (cases "store s"; cases "read_store E s") auto

lemma save_uuids: "save E s = (r, s') \<Longrightarrow> uuids s' = uuids s"
  by (cases "store s"; cases "mkdir_ok s"; cases "write_ok s") (auto simp: save_def Let_def)

lemma updateConcept_uuids: "uuids (snd (updateConcept E s i u)) = uuids s"
proof -
  obtain st s1 where l: "load E s = (st, s1)" by (cases "load E s")
  show ?thesis
  proof (cases "findIndex (\<lambda>c. id' c = i) (concepts st)")
    case None
    from updateConcept_missing[OF l None] load_uuids[OF l] show ?thesis by simp
  next
    case (Some k)
    let ?s2 = "s1\<lparr>clock := Suc (clock s1),
                      store := Some (st\<lparr>concepts := (concepts st)
                         [k := apply_updates (date_at E (clock s1)) u (concepts st ! k)]\<rparr>)\<rparr>"
    obtain r s3 where sv: "save E ?s2 = (r, s3)" by (cases "save E ?s2")
    have "snd (updateConcept E s i u) = s3"
      unfolding updateConcept_found[OF l Some] sv by (cases r) simp_all
    with save_uuids[OF sv] load_uuids[OF l] show ?thesis by simp
  qed
qed

text \<open>
  C9. \<^verbatim>\<open>load()\<close> returns the cached store when \<^verbatim>\<open>this.store\<close> is set, leaving the service
  as it is. Otherwise, when a statement of the \<^verbatim>\<open>try\<close> block throws (the directory cannot
  be made, the file cannot be read, its content does not parse or validate), \<^verbatim>\<open>load()\<close>
  returns a fresh store with no concepts and caches it: no error reaches the caller, and
  the file is not touched.
\<close>

theorem load_cached_or_empty_on_failure:
  "(store s = Some st \<longrightarrow> load E s = (st, s)) \<and>
   (store s = None \<and>
      (\<not> mkdir_ok s \<or> disk s = None \<or> (\<exists>d. disk s = Some d \<and> parse E d = None)) \<longrightarrow>
      (\<exists>e. read_store E s = Inl e) \<and>
      fst (load E s) = empty_store (date_at E (clock s)) \<and>
      concepts (fst (load E s)) = [] \<and>
      store (snd (load E s)) = Some (fst (load E s)) \<and>
      disk (snd (load E s)) = disk s)"
proof (intro conjI impI)
  assume "store s = Some st"
  then show "load E s = (st, s)" by (rule load_cached)
next
  assume a: "store s = None \<and>
    (\<not> mkdir_ok s \<or> disk s = None \<or> (\<exists>d. disk s = Some d \<and> parse E d = None))"
  then obtain e where e: "read_store E s = Inl e"
    using read_store_fails by blast
  then show "\<exists>e. read_store E s = Inl e" ..
  have l: "load E s = (empty_store (date_at E (clock s)),
           s\<lparr>store := Some (empty_store (date_at E (clock s))), clock := Suc (clock s)\<rparr>)"
    using a e by (simp add: load_fallback)
  show "fst (load E s) = empty_store (date_at E (clock s))" by (simp add: l)
  show "concepts (fst (load E s)) = []" by (simp add: l empty_store_def)
  show "store (snd (load E s)) = Some (fst (load E s))" by (simp add: l)
  show "disk (snd (load E s)) = disk s" by (simp add: l)
qed

theorem load_cached_or_empty_on_failure_witness:
  "load rt0 (svc_with []) = (store_of [], svc_with []) \<and>
   store svc0 = None \<and> disk svc0 = None \<and>
   fst (load rt0 svc0) = empty_store ''t'' \<and>
   concepts (fst (load rt0 svc0)) = [] \<and>
   store (snd (load rt0 svc0)) = Some (fst (load rt0 svc0)) \<and>
   disk (snd (load rt0 svc0)) = None"
  using load_cached_or_empty_on_failure
          [of "svc_with []" "store_of []" rt0]
        load_cached_or_empty_on_failure [of svc0 undefined rt0]
  by (simp add: svc_with_def svc0_def rt0_def load_def read_store_def empty_store_def)

subsection \<open>Updating a concept\<close>

lemma svc_with_load: "load E (svc_with cs) = (store_of cs, svc_with cs)"
  by (simp add: load_def svc_with_def)

lemma apply_updates_name:
  "name (apply_updates now u c) = (if truthy (Updates.name u) then the (Updates.name u) else name c)"
  by (cases "Updates.codeLocations u") (simp_all add: apply_updates_def Let_def)

lemma apply_updates_explanation:
  "explanation (apply_updates now u c) =
     (if truthy (Updates.explanation u) then the (Updates.explanation u) else explanation c)"
  by (cases "Updates.codeLocations u") (simp_all add: apply_updates_def Let_def)

lemma apply_updates_chatSnippets:
  "chatSnippets (apply_updates now u c) =
     chatSnippets c @ (if truthy (chatSnippet u)
                       then [\<lparr>timestamp = now, content = the (chatSnippet u)\<rparr>] else [])"
  by (cases "Updates.codeLocations u") (simp_all add: apply_updates_def Let_def)

lemma apply_updates_lastSeen: "lastSeen (apply_updates now u c) = now"
  by (cases "Updates.codeLocations u") (simp_all add: apply_updates_def Let_def)

lemma apply_updates_fixed:
  "id' (apply_updates now u c) = id' c \<and> parent (apply_updates now u c) = parent c \<and>
   category (apply_updates now u c) = category c \<and> firstSeen (apply_updates now u c) = firstSeen c"
  by (cases "Updates.codeLocations u") (simp_all add: apply_updates_def Let_def)

lemma apply_updates_falsy_name:
  "apply_updates now (u\<lparr>Updates.name := Some []\<rparr>) c = apply_updates now (u\<lparr>Updates.name := None\<rparr>) c"
  by (simp add: apply_updates_def)

lemma apply_updates_falsy_explanation:
  "apply_updates now (u\<lparr>Updates.explanation := Some []\<rparr>) c =
   apply_updates now (u\<lparr>Updates.explanation := None\<rparr>) c"
  by (simp add: apply_updates_def)

text \<open>
  C10. For a store that holds the id, \<^verbatim>\<open>updateConcept\<close> given the empty string as \<^verbatim>\<open>name\<close> or as
  \<^verbatim>\<open>explanation\<close> does what it does when the field is left out: the field keeps its value.
  When the directory and the file can be written the call returns the concept, with
  \<^verbatim>\<open>lastSeen\<close> set to the clock reading, and the store written to the file holds it.
\<close>

theorem update_empty_string_is_omitted:
  assumes l: "load E s = (st, s1)"
    and f: "findIndex (\<lambda>c. id' c = i) (concepts st) = Some k"
    and io: "mkdir_ok s" "write_ok s"
  shows "updateConcept E s i (u\<lparr>Updates.name := Some []\<rparr>) =
           updateConcept E s i (u\<lparr>Updates.name := None\<rparr>) \<and>
         updateConcept E s i (u\<lparr>Updates.explanation := Some []\<rparr>) =
           updateConcept E s i (u\<lparr>Updates.explanation := None\<rparr>) \<and>
         (\<exists>c s' st'. updateConcept E s i u = (Inr c, s') \<and>
            (Updates.name u = Some [] \<longrightarrow> name c = name (concepts st ! k)) \<and>
            (Updates.explanation u = Some [] \<longrightarrow> explanation c = explanation (concepts st ! k)) \<and>
            lastSeen c = date_at E (clock s1) \<and>
            store s' = Some st' \<and> concepts st' = (concepts st)[k := c] \<and>
            disk s' = Some (stringify E st'))"
proof (intro conjI)
  show "updateConcept E s i (u\<lparr>Updates.name := Some []\<rparr>) =
           updateConcept E s i (u\<lparr>Updates.name := None\<rparr>)"
    unfolding updateConcept_found[OF l f] apply_updates_falsy_name ..
  show "updateConcept E s i (u\<lparr>Updates.explanation := Some []\<rparr>) =
           updateConcept E s i (u\<lparr>Updates.explanation := None\<rparr>)"
    unfolding updateConcept_found[OF l f] apply_updates_falsy_explanation ..
  let ?c = "apply_updates (date_at E (clock s1)) u (concepts st ! k)"
  obtain r s' where rs: "updateConcept E s i u = (r, s')" by (cases "updateConcept E s i u")
  from updateConcept_ok[OF l f io, of u] rs obtain st' where
    r: "r = Inr ?c" and st': "store s' = Some st'" "disk s' = Some (stringify E st')"
    by auto
  from updateConcept_store[OF l f, of u] rs st' have cs: "concepts st' = (concepts st)[k := ?c]"
    by simp
  have n: "Updates.name u = Some [] \<longrightarrow> name ?c = name (concepts st ! k)"
    by (simp add: apply_updates_name)
  have e: "Updates.explanation u = Some [] \<longrightarrow> explanation ?c = explanation (concepts st ! k)"
    by (simp add: apply_updates_explanation)
  have ls: "lastSeen ?c = date_at E (clock s1)" by (rule apply_updates_lastSeen)
  show "\<exists>c s' st'. updateConcept E s i u = (Inr c, s') \<and>
            (Updates.name u = Some [] \<longrightarrow> name c = name (concepts st ! k)) \<and>
            (Updates.explanation u = Some [] \<longrightarrow> explanation c = explanation (concepts st ! k)) \<and>
            lastSeen c = date_at E (clock s1) \<and>
            store s' = Some st' \<and> concepts st' = (concepts st)[k := c] \<and>
            disk s' = Some (stringify E st')"
    using rs r st' cs n e ls by blast
qed

theorem update_empty_string_is_omitted_witness:
  "load rt0 (svc_with [hooks]) = (store_of [hooks], svc_with [hooks]) \<and>
   findIndex (\<lambda>c. id' c = ''a'') (concepts (store_of [hooks])) = Some 0 \<and>
   mkdir_ok (svc_with [hooks]) \<and> write_ok (svc_with [hooks]) \<and>
   fst (updateConcept rt0 (svc_with [hooks]) ''a''
          \<lparr>Updates.name = Some [], Updates.explanation = Some [], chatSnippet = None,
           Updates.codeLocations = None\<rparr>) = Inr (hooks\<lparr>lastSeen := ''t''\<rparr>) \<and>
   name (hooks\<lparr>lastSeen := ''t''\<rparr>) = ''React Hooks'' \<and>
   disk (snd (updateConcept rt0 (svc_with [hooks]) ''a''
          \<lparr>Updates.name = Some [], Updates.explanation = Some [], chatSnippet = None,
           Updates.codeLocations = None\<rparr>)) = Some ''React Hooks''"
proof -
  let ?u = "\<lparr>Updates.name = Some [], Updates.explanation = Some [], chatSnippet = None,
           Updates.codeLocations = None\<rparr>"
  have h1: "load rt0 (svc_with [hooks]) = (store_of [hooks], svc_with [hooks])"
    by (rule svc_with_load)
  have h2: "findIndex (\<lambda>c. id' c = ''a'') (concepts (store_of [hooks])) = Some 0"
    by (simp add: fixture_defs)
  have h3: "mkdir_ok (svc_with [hooks])" "write_ok (svc_with [hooks])"
    by (simp_all add: svc_with_def svc0_def)
  from conjunct2[OF conjunct2[OF update_empty_string_is_omitted[OF h1 h2 h3, of ?u]]]
  obtain c s' st' where r: "updateConcept rt0 (svc_with [hooks]) ''a'' ?u = (Inr c, s')"
    and nm: "name c = name (concepts (store_of [hooks]) ! 0)"
    and st: "store s' = Some st'" "concepts st' = (concepts (store_of [hooks]))[0 := c]"
        "disk s' = Some (stringify rt0 st')"
    by auto
  have e: "fst (updateConcept rt0 (svc_with [hooks]) ''a'' ?u) = Inr (hooks\<lparr>lastSeen := ''t''\<rparr>)"
    unfolding updateConcept_found[OF h1 h2]
    by (simp add: save_def svc_with_def svc0_def rt0_def apply_updates_def fixture_defs Let_def)
  with r have c: "c = hooks\<lparr>lastSeen := ''t''\<rparr>" by simp
  from nm c have n: "name (hooks\<lparr>lastSeen := ''t''\<rparr>) = ''React Hooks''"
    by (simp add: fixture_defs)
  from st c have "disk s' = Some ''React Hooks''"
    by (simp add: rt0_def fixture_defs)
  with r e n h1 h2 h3 show ?thesis by simp
qed

subsection \<open>Adding from an extraction\<close>

lemma getConceptByName_loaded:
  assumes "load E s = (st, s1)"
  shows "getConceptByName E s1 n =
           (find (\<lambda>c. toLowerCase (name c) = toLowerCase n) (concepts st), s1)"
  unfolding getConceptByName_def load_idem[OF assms] by simp

lemma addConcept_existing:
  assumes l: "load E s = (st, s1)"
    and e: "find (\<lambda>c. toLowerCase (name c) = toLowerCase (ExtractedConcept.name ex)) (concepts st) = Some e"
  shows "addConcept E s ex snip =
           updateConcept E s1 (id' e)
             \<lparr>Updates.name = None, Updates.explanation = None,
              chatSnippet = snip, Updates.codeLocations = None\<rparr>"
  unfolding addConcept_def l by (simp add: getConceptByName_loaded[OF l] e)

lemma addConcept_fresh:
  assumes l: "load E s = (st, s1)"
    and e: "find (\<lambda>c. toLowerCase (name c) = toLowerCase (ExtractedConcept.name ex)) (concepts st) = None"
  shows "addConcept E s ex snip =
     (case save E (s1\<lparr>clock := Suc (clock s1), uuids := Suc (uuids s1),
                      store := Some (st\<lparr>concepts := concepts st @
                         [new_concept (uuid_at E (uuids s1)) (date_at E (clock s1)) ex snip]\<rparr>)\<rparr>) of
        (Inl e, s4) \<Rightarrow> (Inl e, s4)
      | (Inr x, s4) \<Rightarrow> (Inr (new_concept (uuid_at E (uuids s1)) (date_at E (clock s1)) ex snip), s4))"
  unfolding addConcept_def l by (simp add: getConceptByName_loaded[OF l] e Let_def)

lemma addConcept_fresh_store:
  assumes l: "load E s = (st, s1)"
    and e: "find (\<lambda>c. toLowerCase (name c) = toLowerCase (ExtractedConcept.name ex)) (concepts st) = None"
  shows "\<exists>st'. store (snd (addConcept E s ex snip)) = Some st' \<and>
           concepts st' = concepts st @
              [new_concept (uuid_at E (uuids s1)) (date_at E (clock s1)) ex snip]"
proof -
  let ?st2 = "st\<lparr>concepts := concepts st @
                         [new_concept (uuid_at E (uuids s1)) (date_at E (clock s1)) ex snip]\<rparr>"
  let ?s2 = "s1\<lparr>clock := Suc (clock s1), uuids := Suc (uuids s1), store := Some ?st2\<rparr>"
  obtain r s3 where sv: "save E ?s2 = (r, s3)" by (cases "save E ?s2")
  have "store ?s2 = Some ?st2" by simp
  from save_store[OF this sv] obtain st' where
    "store s3 = Some st'" "concepts st' = concepts ?st2"
    by auto
  moreover have "snd (addConcept E s ex snip) = s3"
    unfolding addConcept_fresh[OF l e] sv by (cases r) simp_all
  ultimately show ?thesis by simp
qed

lemma addConcept_fresh_ok:
  assumes l: "load E s = (st, s1)"
    and e: "find (\<lambda>c. toLowerCase (name c) = toLowerCase (ExtractedConcept.name ex)) (concepts st) = None"
    and io: "mkdir_ok s" "write_ok s"
  shows "fst (addConcept E s ex snip) =
           Inr (new_concept (uuid_at E (uuids s1)) (date_at E (clock s1)) ex snip)"
proof -
  let ?st2 = "st\<lparr>concepts := concepts st @
                         [new_concept (uuid_at E (uuids s1)) (date_at E (clock s1)) ex snip]\<rparr>"
  let ?s2 = "s1\<lparr>clock := Suc (clock s1), uuids := Suc (uuids s1), store := Some ?st2\<rparr>"
  have io1: "mkdir_ok ?s2" "write_ok ?s2" using load_io[OF l] io by simp_all
  have st: "store ?s2 = Some ?st2" by simp
  show ?thesis
    unfolding addConcept_fresh[OF l e] save_ok[OF st io1] by simp
qed

lemma addConcept_fresh_uuids:
  assumes l: "load E s = (st, s1)"
    and e: "find (\<lambda>c. toLowerCase (name c) = toLowerCase (ExtractedConcept.name ex)) (concepts st) = None"
  shows "uuids (snd (addConcept E s ex snip)) = Suc (uuids s)"
proof -
  let ?st2 = "st\<lparr>concepts := concepts st @
                         [new_concept (uuid_at E (uuids s1)) (date_at E (clock s1)) ex snip]\<rparr>"
  let ?s2 = "s1\<lparr>clock := Suc (clock s1), uuids := Suc (uuids s1), store := Some ?st2\<rparr>"
  obtain r s3 where sv: "save E ?s2 = (r, s3)" by (cases "save E ?s2")
  have "snd (addConcept E s ex snip) = s3"
    unfolding addConcept_fresh[OF l e] sv by (cases r) simp_all
  with save_uuids[OF sv] load_uuids[OF l] show ?thesis by simp
qed

lemma addConcept_existing_uuids:
  assumes l: "load E s = (st, s1)"
    and e: "find (\<lambda>c. toLowerCase (name c) = toLowerCase (ExtractedConcept.name ex)) (concepts st) = Some e"
  shows "uuids (snd (addConcept E s ex snip)) = uuids s"
  unfolding addConcept_existing[OF l e] updateConcept_uuids load_uuids[OF l] ..

lemma fresh_from_next:
  assumes fr: "fresh_from E n cs" and d: "distinct (map id' cs)" and i: "id' c = uuid_at E n"
  shows "id' c \<notin> id' ` set cs" and "distinct (map id' (cs @ [c]))"
    and "fresh_from E (Suc n) (cs @ [c])"
proof -
  from fr have inj: "inj (uuid_at E)" and un: "\<And>k. n \<le> k \<Longrightarrow> uuid_at E k \<notin> id' ` set cs"
    by (simp_all add: fresh_from_def)
  from un[of n] i show new: "id' c \<notin> id' ` set cs" by simp
  with d show "distinct (map id' (cs @ [c]))" by simp
  have "uuid_at E k \<notin> id' ` set (cs @ [c])" if "Suc n \<le> k" for k
  proof -
    from that have "uuid_at E k \<notin> id' ` set cs" using un[of k] by simp
    moreover from that inj have "uuid_at E k \<noteq> uuid_at E n" by (auto dest: injD)
    ultimately show ?thesis using i by simp
  qed
  with inj show "fresh_from E (Suc n) (cs @ [c])" by (simp add: fresh_from_def)
qed

lemma findIndex_distinct_key:
  assumes d: "distinct (map f xs)" and m: "e \<in> set xs"
  shows "\<exists>k. findIndex (\<lambda>c. f c = f e) xs = Some k \<and> k < length xs \<and> xs ! k = e"
proof -
  from m have "\<not> (\<forall>x\<in>set xs. \<not> f x = f e)" by blast
  then obtain k where k: "findIndex (\<lambda>c. f c = f e) xs = Some k"
    using findIndex_None[of "\<lambda>c. f c = f e" xs] by auto
  from findIndex_Some[OF k] have kl: "k < length xs" and fk: "f (xs ! k) = f e" by auto
  from d kl fk m have "xs ! k = e"
    by (metis distinct_map inj_onD nth_mem)
  with k kl show ?thesis by blast
qed

text \<open>
  C4, as amended. \<^verbatim>\<open>addConcept\<close> (add from an extraction) on a store whose ids are distinct.
  When a concept has the extraction's name up to case, the call is a merge: the number of
  concepts stays, the concept found gets exactly one more chat snippet when a non-empty
  provenance text is given and none when the text is absent or empty
  (\<^verbatim>\<open>if (updates.chatSnippet)\<close>), its \<^verbatim>\<open>lastSeen\<close> is set to the clock reading, its id, name
  and explanation stay, and no id is drawn. When no concept has the name, a concept is
  appended with the next id of the generator, which advances by one, with \<^verbatim>\<open>firstSeen\<close>
  equal to \<^verbatim>\<open>lastSeen\<close>, and with the name, category, explanation and parent of the
  extraction; when the generator never repeats an id and gives no id of the store from
  its current reading on, the new id is the id of no concept of the store, the ids of the
  new store are distinct, and the generator gives no id of the new store from its next
  reading on.
\<close>

theorem addConcept_merges_or_creates:
  assumes l: "load E s = (st, s1)" and d: "distinct (map id' (concepts st))"
  shows
   "(\<forall>e. find (\<lambda>c. toLowerCase (name c) = toLowerCase (ExtractedConcept.name ex)) (concepts st)
           = Some e \<longrightarrow>
       (\<exists>k st' e'. store (snd (addConcept E s ex snip)) = Some st' \<and>
          k < length (concepts st) \<and> concepts st ! k = e \<and>
          concepts st' = (concepts st)[k := e'] \<and>
          length (concepts st') = length (concepts st) \<and>
          chatSnippets e' = chatSnippets e @
            (if truthy snip then [\<lparr>timestamp = date_at E (clock s1), content = the snip\<rparr>] else []) \<and>
          length (chatSnippets e') = length (chatSnippets e) + (if truthy snip then 1 else 0) \<and>
          lastSeen e' = date_at E (clock s1) \<and>
          id' e' = id' e \<and> name e' = name e \<and> explanation e' = explanation e \<and>
          uuids (snd (addConcept E s ex snip)) = uuids s \<and>
          (mkdir_ok s \<and> write_ok s \<longrightarrow> fst (addConcept E s ex snip) = Inr e'))) \<and>
    (find (\<lambda>c. toLowerCase (name c) = toLowerCase (ExtractedConcept.name ex)) (concepts st) = None
       \<longrightarrow>
       (\<exists>st' c. store (snd (addConcept E s ex snip)) = Some st' \<and>
          concepts st' = concepts st @ [c] \<and>
          id' c = uuid_at E (uuids s1) \<and>
          firstSeen c = lastSeen c \<and> firstSeen c = date_at E (clock s1) \<and>
          name c = ExtractedConcept.name ex \<and>
          category c = ExtractedConcept.category ex \<and>
          explanation c = ExtractedConcept.explanation ex \<and>
          parent c = ExtractedConcept.parent ex \<and>
          uuids (snd (addConcept E s ex snip)) = Suc (uuids s) \<and>
          (fresh_from E (uuids s) (concepts st) \<longrightarrow>
             id' c \<notin> id' ` set (concepts st) \<and> distinct (map id' (concepts st')) \<and>
             fresh_from E (Suc (uuids s)) (concepts st')) \<and>
          (mkdir_ok s \<and> write_ok s \<longrightarrow> fst (addConcept E s ex snip) = Inr c)))"
proof (intro conjI allI impI)
  fix e
  assume e: "find (\<lambda>c. toLowerCase (name c) = toLowerCase (ExtractedConcept.name ex)) (concepts st)
           = Some e"
  let ?u = "\<lparr>Updates.name = None, Updates.explanation = None,
              chatSnippet = snip, Updates.codeLocations = None\<rparr>"
  let ?e' = "apply_updates (date_at E (clock s1)) ?u e"
  from e have "e \<in> set (concepts st)" using find_Some_in by fastforce
  from findIndex_distinct_key[OF d this] obtain k where
    k: "findIndex (\<lambda>c. id' c = id' e) (concepts st) = Some k" "k < length (concepts st)"
       "concepts st ! k = e" by blast
  note l1 = load_idem[OF l]
  have a: "addConcept E s ex snip = updateConcept E s1 (id' e) ?u"
    by (rule addConcept_existing[OF l e])
  from updateConcept_store[OF l1 k(1), of ?u] k(3) obtain st' where
    st': "store (snd (addConcept E s ex snip)) = Some st'" "concepts st' = (concepts st)[k := ?e']"
    unfolding a by auto
  have io: "mkdir_ok s \<and> write_ok s \<longrightarrow> fst (addConcept E s ex snip) = Inr ?e'"
    using updateConcept_ok[OF l1 k(1), of ?u] load_io[OF l] k(3) unfolding a by simp
  have c1: "chatSnippets ?e' = chatSnippets e @
            (if truthy snip then [\<lparr>timestamp = date_at E (clock s1), content = the snip\<rparr>] else [])"
    by (simp add: apply_updates_chatSnippets)
  have c2: "length (chatSnippets ?e') = length (chatSnippets e) + (if truthy snip then 1 else 0)"
    by (simp add: apply_updates_chatSnippets)
  have c3: "lastSeen ?e' = date_at E (clock s1)" by (rule apply_updates_lastSeen)
  have c4: "id' ?e' = id' e" using apply_updates_fixed by blast
  have c5: "name ?e' = name e" by (simp add: apply_updates_name)
  have c6: "explanation ?e' = explanation e" by (simp add: apply_updates_explanation)
  have c7: "length (concepts st') = length (concepts st)" by (simp add: st'(2))
  have c8: "uuids (snd (addConcept E s ex snip)) = uuids s"
    by (rule addConcept_existing_uuids[OF l e])
  show "\<exists>k st' e'. store (snd (addConcept E s ex snip)) = Some st' \<and>
          k < length (concepts st) \<and> concepts st ! k = e \<and>
          concepts st' = (concepts st)[k := e'] \<and>
          length (concepts st') = length (concepts st) \<and>
          chatSnippets e' = chatSnippets e @
            (if truthy snip then [\<lparr>timestamp = date_at E (clock s1), content = the snip\<rparr>] else []) \<and>
          length (chatSnippets e') = length (chatSnippets e) + (if truthy snip then 1 else 0) \<and>
          lastSeen e' = date_at E (clock s1) \<and>
          id' e' = id' e \<and> name e' = name e \<and> explanation e' = explanation e \<and>
          uuids (snd (addConcept E s ex snip)) = uuids s \<and>
          (mkdir_ok s \<and> write_ok s \<longrightarrow> fst (addConcept E s ex snip) = Inr e')"
    using st' k(2,3) io c1 c2 c3 c4 c5 c6 c7 c8 by blast
next
  assume n: "find (\<lambda>c. toLowerCase (name c) = toLowerCase (ExtractedConcept.name ex)) (concepts st) = None"
  let ?c = "new_concept (uuid_at E (uuids s1)) (date_at E (clock s1)) ex snip"
  from addConcept_fresh_store[OF l n, of snip] obtain st' where
    st': "store (snd (addConcept E s ex snip)) = Some st'" "concepts st' = concepts st @ [?c]"
    by blast
  have io: "mkdir_ok s \<and> write_ok s \<longrightarrow> fst (addConcept E s ex snip) = Inr ?c"
    using addConcept_fresh_ok[OF l n] by blast
  have f: "id' ?c = uuid_at E (uuids s1)" "firstSeen ?c = lastSeen ?c"
    "firstSeen ?c = date_at E (clock s1)" "name ?c = ExtractedConcept.name ex"
    "category ?c = ExtractedConcept.category ex" "explanation ?c = ExtractedConcept.explanation ex"
    "parent ?c = ExtractedConcept.parent ex"
    by (simp_all add: new_concept_def)
  have u: "uuids (snd (addConcept E s ex snip)) = Suc (uuids s)"
    by (rule addConcept_fresh_uuids[OF l n])
  have i: "id' ?c = uuid_at E (uuids s)"
    by (simp add: new_concept_def load_uuids[OF l])
  have fr: "fresh_from E (uuids s) (concepts st) \<longrightarrow>
             id' ?c \<notin> id' ` set (concepts st) \<and> distinct (map id' (concepts st')) \<and>
             fresh_from E (Suc (uuids s)) (concepts st')"
    unfolding st'(2) using fresh_from_next[OF _ d i] by blast
  show "\<exists>st' c. store (snd (addConcept E s ex snip)) = Some st' \<and>
          concepts st' = concepts st @ [c] \<and>
          id' c = uuid_at E (uuids s1) \<and>
          firstSeen c = lastSeen c \<and> firstSeen c = date_at E (clock s1) \<and>
          name c = ExtractedConcept.name ex \<and>
          category c = ExtractedConcept.category ex \<and>
          explanation c = ExtractedConcept.explanation ex \<and>
          parent c = ExtractedConcept.parent ex \<and>
          uuids (snd (addConcept E s ex snip)) = Suc (uuids s) \<and>
          (fresh_from E (uuids s) (concepts st) \<longrightarrow>
             id' c \<notin> id' ` set (concepts st) \<and> distinct (map id' (concepts st')) \<and>
             fresh_from E (Suc (uuids s)) (concepts st')) \<and>
          (mkdir_ok s \<and> write_ok s \<longrightarrow> fst (addConcept E s ex snip) = Inr c)"
    using st' io f u fr by blast
qed

theorem addConcept_merges_or_creates_witness:
  "load rt0 (svc_with [hooks]) = (store_of [hooks], svc_with [hooks]) \<and>
   distinct (map id' (concepts (store_of [hooks]))) \<and>
   find (\<lambda>c. toLowerCase (name c) = toLowerCase (ExtractedConcept.name ex_hooks))
     (concepts (store_of [hooks])) = Some hooks \<and>
   find (\<lambda>c. toLowerCase (name c) = toLowerCase (ExtractedConcept.name ex_useState))
     (concepts (store_of [hooks])) = None \<and>
   fresh_from rt0 (uuids (svc_with [hooks])) (concepts (store_of [hooks])) \<and>
   map_option (length \<circ> concepts) (store (snd (addConcept rt0 (svc_with [hooks]) ex_hooks (Some ''seen'')))) = Some 1 \<and>
   uuids (snd (addConcept rt0 (svc_with [hooks]) ex_hooks (Some ''seen''))) = uuids (svc_with [hooks]) \<and>
   map_option (length \<circ> concepts) (store (snd (addConcept rt0 (svc_with [hooks]) ex_useState None))) = Some 2 \<and>
   map_option (distinct \<circ> map id' \<circ> concepts)
     (store (snd (addConcept rt0 (svc_with [hooks]) ex_useState None))) = Some True \<and>
   uuids (snd (addConcept rt0 (svc_with [hooks]) ex_useState None)) = Suc (uuids (svc_with [hooks]))"
proof -
  have h1: "load rt0 (svc_with [hooks]) = (store_of [hooks], svc_with [hooks])"
    by (rule svc_with_load)
  have h2: "distinct (map id' (concepts (store_of [hooks])))"
    by (simp add: fixture_defs)
  have f1: "find (\<lambda>c. toLowerCase (name c) = toLowerCase (ExtractedConcept.name ex_hooks))
     (concepts (store_of [hooks])) = Some hooks"
    by code_simp
  have f2: "find (\<lambda>c. toLowerCase (name c) = toLowerCase (ExtractedConcept.name ex_useState))
     (concepts (store_of [hooks])) = None"
    by code_simp
  have fr: "fresh_from rt0 (uuids (svc_with [hooks])) (concepts (store_of [hooks]))"
    by (auto simp: fresh_from_def rt0_def inj_def fixture_defs svc_with_def svc0_def)
  from addConcept_merges_or_creates[OF h1 h2, of ex_hooks "Some ''seen''"] f1
  obtain st' where "store (snd (addConcept rt0 (svc_with [hooks]) ex_hooks (Some ''seen''))) = Some st'"
    "length (concepts st') = length (concepts (store_of [hooks]))"
    "uuids (snd (addConcept rt0 (svc_with [hooks]) ex_hooks (Some ''seen''))) = uuids (svc_with [hooks])"
    by blast
  then have a: "map_option (length \<circ> concepts)
      (store (snd (addConcept rt0 (svc_with [hooks]) ex_hooks (Some ''seen'')))) = Some 1"
    and a': "uuids (snd (addConcept rt0 (svc_with [hooks]) ex_hooks (Some ''seen''))) = uuids (svc_with [hooks])"
    by (simp_all add: store_of_def)
  from addConcept_merges_or_creates[OF h1 h2, of ex_useState None] f2 fr
  obtain st' c where c: "store (snd (addConcept rt0 (svc_with [hooks]) ex_useState None)) = Some st'"
    "concepts st' = concepts (store_of [hooks]) @ [c]"
    "distinct (map id' (concepts st'))"
    "uuids (snd (addConcept rt0 (svc_with [hooks]) ex_useState None)) = Suc (uuids (svc_with [hooks]))"
    by blast
  from c(1,2) have b: "map_option (length \<circ> concepts)
      (store (snd (addConcept rt0 (svc_with [hooks]) ex_useState None))) = Some 2"
    by (simp add: store_of_def)
  from c(1,3) have b': "map_option (distinct \<circ> map id' \<circ> concepts)
     (store (snd (addConcept rt0 (svc_with [hooks]) ex_useState None))) = Some True"
    by simp
  from h1 h2 f1 f2 fr a a' b b' c(4) show ?thesis by blast
qed

text \<open>
  C4 as stated fails for a provenance text that is supplied and empty: the merge tests
  \<^verbatim>\<open>if (updates.chatSnippet)\<close>, which the empty string does not pass. Adding the extraction
  \<^verbatim>\<open>react hooks\<close> with the provenance text \<^verbatim>\<open>''\<close> to a store that holds \<^verbatim>\<open>React Hooks\<close> is a
  merge that returns the concept with its \<^verbatim>\<open>lastSeen\<close> updated and no chat snippet added.
\<close>

theorem addConcept_empty_provenance_counterexample:
  "find (\<lambda>c. toLowerCase (name c) = toLowerCase (ExtractedConcept.name ex_hooks))
     (concepts (store_of [hooks])) = Some hooks \<and>
   chatSnippets hooks = [] \<and>
   fst (addConcept rt0 (svc_with [hooks]) ex_hooks (Some [])) = Inr (hooks\<lparr>lastSeen := ''t''\<rparr>) \<and>
   chatSnippets (hooks\<lparr>lastSeen := ''t''\<rparr>) = [] \<and>
   map_option concepts (store (snd (addConcept rt0 (svc_with [hooks]) ex_hooks (Some []))))
     = Some [hooks\<lparr>lastSeen := ''t''\<rparr>]"
  by code_simp

subsection \<open>The cycle check\<close>

lemma chain_falsy: "\<not> truthy start \<Longrightarrow> chain cs start k = None"
  by (induction k) auto


lemma chain_shift:
  "cur \<noteq> [] \<Longrightarrow> chain cs (Some cur) (Suc k) = chain cs (parent_of cs cur) k"
proof (induction k)
  case 0
  then show ?case by simp
next
  case (Suc k)
  then show ?case by simp
qed

lemma hits_falsy: "\<not> truthy start \<Longrightarrow> \<not> hits cs t V start"
  by (simp add: hits_def chain_falsy)

lemma hits_now: "cur \<noteq> [] \<Longrightarrow> cur = t \<or> cur \<in> V \<Longrightarrow> hits cs t V (Some cur)"
  unfolding hits_def
  by (rule disjI1, rule exI[of _ 0]) auto

lemma hits_step:
  assumes ne: "cur \<noteq> []" and nt: "cur \<noteq> t" and nv: "cur \<notin> V"
  shows "hits cs t V (Some cur) \<longleftrightarrow> hits cs t (insert cur V) (parent_of cs cur)"
proof
  assume "hits cs t V (Some cur)"
  then consider (a) k n where "chain cs (Some cur) k = Some n" "n = t \<or> n \<in> V"
    | (b) i j where "i < j" "chain cs (Some cur) i \<noteq> None" "chain cs (Some cur) i = chain cs (Some cur) j"
    unfolding hits_def by blast
  then show "hits cs t (insert cur V) (parent_of cs cur)"
  proof cases
    case a
    with ne nt nv obtain k' where "k = Suc k'" by (cases k) auto
    with a chain_shift[OF ne] have "chain cs (parent_of cs cur) k' = Some n" by simp
    with a(2) show ?thesis unfolding hits_def by blast
  next
    case b
    then obtain j' where j': "j = Suc j'" by (cases j) auto
    show ?thesis
    proof (cases i)
      case 0
      with b ne have "chain cs (Some cur) j = Some cur" by simp
      with j' chain_shift[OF ne] have "chain cs (parent_of cs cur) j' = Some cur" by simp
      then show ?thesis unfolding hits_def by blast
    next
      case (Suc i')
      with b j' chain_shift[OF ne] have "i' < j'" "chain cs (parent_of cs cur) i' \<noteq> None"
        "chain cs (parent_of cs cur) i' = chain cs (parent_of cs cur) j'" by simp_all
      then show ?thesis unfolding hits_def by blast
    qed
  qed
next
  assume "hits cs t (insert cur V) (parent_of cs cur)"
  then consider (a) k n where "chain cs (parent_of cs cur) k = Some n" "n = t \<or> n \<in> V"
    | (c) k where "chain cs (parent_of cs cur) k = Some cur"
    | (b) i j where "i < j" "chain cs (parent_of cs cur) i \<noteq> None"
        "chain cs (parent_of cs cur) i = chain cs (parent_of cs cur) j"
    unfolding hits_def by blast
  then show "hits cs t V (Some cur)"
  proof cases
    case a
    then have "chain cs (Some cur) (Suc k) = Some n" using chain_shift[OF ne] by simp
    with a(2) show ?thesis unfolding hits_def by blast
  next
    case c
    then have "chain cs (Some cur) (Suc k) = Some cur" using chain_shift[OF ne] by simp
    moreover have "chain cs (Some cur) 0 = Some cur" using ne by simp
    ultimately have "(0::nat) < Suc k \<and> chain cs (Some cur) 0 \<noteq> None \<and>
       chain cs (Some cur) 0 = chain cs (Some cur) (Suc k)" by simp
    then show ?thesis unfolding hits_def by blast
  next
    case b
    then have "Suc i < Suc j \<and> chain cs (Some cur) (Suc i) \<noteq> None \<and>
       chain cs (Some cur) (Suc i) = chain cs (Some cur) (Suc j)"
      using chain_shift[OF ne] by simp
    then show ?thesis unfolding hits_def by blast
  qed
qed

lemma walk_hits: "walk cs t V cur = hits cs t V cur"
proof (induction cs t V cur rule: walk.induct)
  case (1 cs t V current)
  show ?case
  proof (cases current)
    case None
    then show ?thesis using hits_falsy[of None] by (simp add: walk.simps)
  next
    case (Some cur)
    show ?thesis
    proof (cases "cur = []")
      case True
      with Some show ?thesis using hits_falsy[of "Some []"] by (simp add: walk.simps)
    next
      case ne: False
      show ?thesis
      proof (cases "cur = t \<or> cur \<in> V")
        case True
        with Some ne hits_now[OF ne True] show ?thesis by (auto simp: walk.simps)
      next
        case False
        then have nt: "cur \<noteq> t" and nv: "cur \<notin> V" by auto
        have "walk cs t V current = walk cs t (insert cur V) (parent_of cs cur)"
          using Some ne nt nv by (subst walk.simps) (simp add: parent_of_def)
        also have "\<dots> = hits cs t (insert cur V) (parent_of cs cur)"
          using "1.IH"[OF Some ne nt nv] by (simp add: parent_of_def)
        also have "\<dots> = hits cs t V (Some cur)"
          using hits_step[OF ne nt nv] by simp
        finally show ?thesis using Some by simp
      qed
    qed
  qed
qed

lemma walk_walk_finds: "walk cs t {} (Some p) = walk_finds cs t p"
  unfolding walk_hits hits_def walk_finds_def by simp

lemma updateConceptParent_missing:
  assumes l: "load E s = (st, s1)" and f: "findIndex (\<lambda>c. id' c = i) (concepts st) = None"
  shows "updateConceptParent E s i np = (Inl (ConceptNotFound i), s1)"
  unfolding updateConceptParent_def l by (simp add: f)

lemma updateConceptParent_rejected:
  assumes l: "load E s = (st, s1)" and f: "findIndex (\<lambda>c. id' c = i) (concepts st) = Some k"
    and p: "p \<noteq> []" and v: "validate_parent (concepts st) i p = Inl e"
  shows "updateConceptParent E s i (Some p) = (Inl e, s1)"
  unfolding updateConceptParent_def l by (simp add: f p v)

lemma updateConceptParent_accepted:
  assumes l: "load E s = (st, s1)" and f: "findIndex (\<lambda>c. id' c = i) (concepts st) = Some k"
    and v: "truthy np \<longrightarrow> validate_parent (concepts st) i (the np) = Inr ()"
  shows "updateConceptParent E s i np =
     (case save E (s1\<lparr>clock := Suc (clock s1),
                      store := Some (st\<lparr>concepts := (concepts st)
                         [k := (concepts st ! k)\<lparr>parent := (if truthy np then np else None),
                                lastSeen := date_at E (clock s1)\<rparr>]\<rparr>)\<rparr>) of
        (Inl e, s3) \<Rightarrow> (Inl e, s3)
      | (Inr x, s3) \<Rightarrow> (Inr ((concepts st ! k)\<lparr>parent := (if truthy np then np else None),
                                lastSeen := date_at E (clock s1)\<rparr>), s3))"
  unfolding updateConceptParent_def l using v by (simp add: f Let_def)

lemma save_result: "fst (save E s) = Inl e \<Longrightarrow> e = IOFailure"
  by (cases "store s"; cases "mkdir_ok s"; cases "write_ok s") (auto simp: save_def Let_def)

lemma save_clock: "store s = Some st \<Longrightarrow> mkdir_ok s \<Longrightarrow> clock (snd (save E s)) = Suc (clock s)"
  by (cases "write_ok s") (auto simp: save_def Let_def)

lemma find_by_id:
  "find (\<lambda>c. id' c = i) cs = Some child \<Longrightarrow>
     \<exists>k. findIndex (\<lambda>c. id' c = i) cs = Some k \<and> cs ! k = child \<and> k < length cs"
  using findIndex_Some[of "\<lambda>c. id' c = i" cs]
  by (auto simp: find_findIndex)

lemma walk_None: "walk cs t V None = False"
  by (simp add: walk.simps)

lemma walk_Some:
  "walk cs t V (Some cur) =
     (if cur = [] then False else if cur = t then True else if cur \<in> V then True
      else walk cs t (insert cur V)
             (case find (\<lambda>c. name c = cur) cs of None \<Rightarrow> None | Some p \<Rightarrow> parent p))"
  by (subst walk.simps) simp

lemma walk_parent_exists:
  assumes w: "walk cs t {} (Some p)" and t: "\<exists>c\<in>set cs. name c = t"
  shows "find (\<lambda>c. name c = p) cs \<noteq> None"
proof (cases "p = t")
  case True
  with t show ?thesis by (auto simp: find_None_iff)
next
  case False
  show ?thesis
  proof
    assume n: "find (\<lambda>c. name c = p) cs = None"
    from w have "p \<noteq> []" by (subst (asm) walk_Some) (auto split: if_splits)
    with False n w show False by (subst (asm) walk_Some) (simp add: walk_None)
  qed
qed

lemma validate_parent_circular:
  assumes f: "find (\<lambda>c. id' c = i) cs = Some child"
  shows "validate_parent cs i p = Inl CircularReference \<longleftrightarrow> walk cs (name child) {} (Some p)"
proof -
  from f have m: "\<exists>c\<in>set cs. name c = name child" using find_Some_in by fastforce
  show ?thesis
  proof (cases "find (\<lambda>c. name c = p) cs")
    case None
    then have "\<not> walk cs (name child) {} (Some p)"
      using walk_parent_exists[OF _ m, of p] by blast
    with None show ?thesis
      by (simp add: validate_parent_def)
  next
    case (Some a)
    then show ?thesis by (simp add: validate_parent_def wouldCreateCycle_def f)
  qed
qed

lemma updateConceptParent_circular_iff:
  assumes l: "load E s = (st, s1)" and f: "find (\<lambda>c. id' c = i) (concepts st) = Some child"
  shows "fst (updateConceptParent E s i (Some p)) = Inl CircularReference \<longleftrightarrow>
           p \<noteq> [] \<and> walk (concepts st) (name child) {} (Some p)"
proof -
  from find_by_id[OF f] obtain k where k: "findIndex (\<lambda>c. id' c = i) (concepts st) = Some k" by blast
  show ?thesis
  proof (cases "p \<noteq> [] \<and> (\<exists>e. validate_parent (concepts st) i p = Inl e)")
    case True
    then obtain e where e: "validate_parent (concepts st) i p = Inl e" and p: "p \<noteq> []" by blast
    from updateConceptParent_rejected[OF l k p e] validate_parent_circular[OF f, of p] e p
    show ?thesis by auto
  next
    case False
    then have v: "truthy (Some p) \<longrightarrow> validate_parent (concepts st) i (the (Some p)) = Inr ()"
      by (cases "validate_parent (concepts st) i p") auto
    let ?s2 = "s1\<lparr>clock := Suc (clock s1),
                      store := Some (st\<lparr>concepts := (concepts st)
                         [k := (concepts st ! k)\<lparr>parent := (if truthy (Some p) then Some p else None),
                                lastSeen := date_at E (clock s1)\<rparr>]\<rparr>)\<rparr>"
    obtain r s3 where sv: "save E ?s2 = (r, s3)" by (cases "save E ?s2")
    have "r \<noteq> Inl CircularReference" using save_result[of E ?s2 CircularReference] sv by auto
    then have "fst (updateConceptParent E s i (Some p)) \<noteq> Inl CircularReference"
      unfolding updateConceptParent_accepted[OF l k v] sv by (cases r) auto
    moreover have "\<not> (p \<noteq> [] \<and> walk (concepts st) (name child) {} (Some p))"
      using False validate_parent_circular[OF f, of p] by auto
    ultimately show ?thesis by blast
  qed
qed

subsection \<open>Reparenting\<close>

lemma walk_finds_truthy: "walk_finds cs t p \<Longrightarrow> p \<noteq> []"
  unfolding walk_finds_def using chain_falsy[of "Some []" cs] by (cases "p = []") auto

lemma walk_empty_start: "\<not> walk cs t V (Some [])"
  by (simp add: walk_Some)

lemma reaches_chain:
  assumes "(b, x) \<in> (parent_edges cs)\<^sup>*" and "b \<noteq> []"
  shows "\<exists>k. chain cs (Some b) k = Some x"
  using assms(1)
proof (induction rule: rtrancl_induct)
  case base
  have "chain cs (Some b) 0 = Some b" using assms(2) by simp
  then show ?case ..
next
  case (step y z)
  then obtain k where k: "chain cs (Some b) k = Some y" by blast
  from step(2) have "parent_of cs y = Some z" "z \<noteq> []" by (auto simp: parent_edges_def)
  with k have "chain cs (Some b) (Suc k) = Some z" by simp
  then show ?case ..
qed

text \<open>
  C1. For a store that holds the id, \<^verbatim>\<open>updateConceptParent\<close> with a parent name \<open>p\<close> ends in
  \<^verbatim>\<open>Cannot create circular reference\<close> exactly when the chain of parent references
  upward from \<open>p\<close>, read in the store as loaded, reaches the name of the concept or comes to
  a name a second time. The rejection leaves the service as \<^verbatim>\<open>load\<close> left it: nothing is
  assigned and nothing is saved. Reparenting a concept to its own (non-empty) name is
  rejected so.
\<close>

theorem reparent_cycle_check:
  assumes l: "load E s = (st, s1)" and f: "find (\<lambda>c. id' c = i) (concepts st) = Some child"
  shows "(fst (updateConceptParent E s i (Some p)) = Inl CircularReference \<longleftrightarrow>
            walk_finds (concepts st) (name child) p) \<and>
         (fst (updateConceptParent E s i (Some p)) = Inl CircularReference \<longrightarrow>
            snd (updateConceptParent E s i (Some p)) = s1 \<and> store s1 = Some st \<and> disk s1 = disk s) \<and>
         (name child \<noteq> [] \<longrightarrow>
            updateConceptParent E s i (Some (name child)) = (Inl CircularReference, s1))"
proof (intro conjI impI)
  note iff = updateConceptParent_circular_iff[OF l f]
  show "fst (updateConceptParent E s i (Some p)) = Inl CircularReference \<longleftrightarrow>
            walk_finds (concepts st) (name child) p"
    unfolding iff walk_walk_finds using walk_finds_truthy by blast
  from find_by_id[OF f] obtain k where k: "findIndex (\<lambda>c. id' c = i) (concepts st) = Some k" by blast
  {
    fix q assume c: "fst (updateConceptParent E s i (Some q)) = Inl CircularReference"
    then have q: "q \<noteq> []" and w: "walk (concepts st) (name child) {} (Some q)"
      using updateConceptParent_circular_iff[OF l f] by blast+
    from w have "validate_parent (concepts st) i q = Inl CircularReference"
      using validate_parent_circular[OF f] by blast
    from updateConceptParent_rejected[OF l k q this]
    have "updateConceptParent E s i (Some q) = (Inl CircularReference, s1)" .
  } note rej = this
  {
    assume "fst (updateConceptParent E s i (Some p)) = Inl CircularReference"
    from rej[OF this] show "snd (updateConceptParent E s i (Some p)) = s1" by simp
    show "store s1 = Some st" by (rule load_store[OF l])
    show "disk s1 = disk s" by (rule load_disk[OF l])
  }
  assume n: "name child \<noteq> []"
  then have "walk (concepts st) (name child) {} (Some (name child))"
    by (simp add: walk_Some)
  with n have "fst (updateConceptParent E s i (Some (name child))) = Inl CircularReference"
    using updateConceptParent_circular_iff[OF l f] by blast
  from rej[OF this] show "updateConceptParent E s i (Some (name child)) = (Inl CircularReference, s1)" .
qed

theorem reparent_cycle_check_witness:
  "load rt0 (svc_with [hooks, useState]) = (store_of [hooks, useState], svc_with [hooks, useState]) \<and>
   find (\<lambda>c. id' c = ''a'') (concepts (store_of [hooks, useState])) = Some hooks \<and>
   fst (updateConceptParent rt0 (svc_with [hooks, useState]) ''a'' (Some ''useState'')) = Inl CircularReference \<and>
   walk_finds (concepts (store_of [hooks, useState])) (name hooks) ''useState'' \<and>
   updateConceptParent rt0 (svc_with [hooks, useState]) ''a'' (Some (name hooks))
     = (Inl CircularReference, svc_with [hooks, useState])"
proof -
  have h1: "load rt0 (svc_with [hooks, useState]) = (store_of [hooks, useState], svc_with [hooks, useState])"
    by (rule svc_with_load)
  have h2: "find (\<lambda>c. id' c = ''a'') (concepts (store_of [hooks, useState])) = Some hooks"
    by (simp add: fixture_defs)
  have e: "fst (updateConceptParent rt0 (svc_with [hooks, useState]) ''a'' (Some ''useState'')) = Inl CircularReference"
    unfolding updateConceptParent_def h1
    by (simp add: fixture_defs validate_parent_def wouldCreateCycle_def walk_Some)
  have n: "name hooks \<noteq> []" by (simp add: fixture_defs)
  from reparent_cycle_check[OF h1 h2, of "''useState''"] e n h1 h2 show ?thesis by blast
qed

lemma updateConceptParent_empty_name:
  "updateConceptParent E s i (Some []) = updateConceptParent E s i None"
  by (simp add: updateConceptParent_def split: prod.split option.split)

text \<open>
  C3 as stated fails for the empty string, a name no concept has: \<^verbatim>\<open>if (parent)\<close> skips both
  checks for it, and the call clears the parent, sets \<^verbatim>\<open>lastSeen\<close> and saves. Reparenting
  \<^verbatim>\<open>useState\<close> to \<^verbatim>\<open>''\<close> returns the concept, detached, and writes the file.
\<close>

theorem reparent_empty_name_counterexample:
  "[] \<notin> name ` set (concepts (store_of [hooks, useState])) \<and>
   disk (svc_with [hooks, useState]) = None \<and>
   fst (updateConceptParent rt0 (svc_with [hooks, useState]) ''b'' (Some [])) =
     Inr (useState\<lparr>parent := None, lastSeen := ''t''\<rparr>) \<and>
   map_option concepts (store (snd (updateConceptParent rt0 (svc_with [hooks, useState]) ''b'' (Some [])))) =
     Some [hooks, useState\<lparr>parent := None, lastSeen := ''t''\<rparr>] \<and>
   disk (snd (updateConceptParent rt0 (svc_with [hooks, useState]) ''b'' (Some []))) =
     Some ''React HooksuseState''"
  by code_simp

text \<open>
  C3, as amended. For a store that holds the id of a concept \<open>a\<close>, the three rejected
  reparents: to the name of \<open>a\<close> itself (when it is not empty), to a non-empty name \<open>b\<close> from
  which the parent edges lead to the name of \<open>a\<close>, and to a non-empty name no concept has.
  Each returns an error and the service as \<^verbatim>\<open>load\<close> left it: the store is the loaded one,
  the file is the one before the call, and a service that had its store loaded is
  unchanged as a whole. Reparenting to the empty string is not rejected: it is the same
  call as reparenting to \<^verbatim>\<open>null\<close>.
\<close>

theorem reparent_rejections_leave_store_unchanged:
  assumes l: "load E s = (st, s1)" and f: "find (\<lambda>c. id' c = i) (concepts st) = Some a"
  shows "(name a \<noteq> [] \<longrightarrow>
            updateConceptParent E s i (Some (name a)) = (Inl CircularReference, s1)) \<and>
         (\<forall>b. b \<noteq> [] \<and> (b, name a) \<in> (parent_edges (concepts st))\<^sup>+ \<longrightarrow>
            updateConceptParent E s i (Some b) = (Inl CircularReference, s1)) \<and>
         (\<forall>p. p \<noteq> [] \<and> p \<notin> name ` set (concepts st) \<longrightarrow>
            updateConceptParent E s i (Some p) = (Inl (ParentNotFound p), s1)) \<and>
         updateConceptParent E s i (Some []) = updateConceptParent E s i None \<and>
         store s1 = Some st \<and> disk s1 = disk s \<and> (store s = Some st \<longrightarrow> s1 = s)"
proof (intro conjI impI allI)
  from find_by_id[OF f] obtain k where k: "findIndex (\<lambda>c. id' c = i) (concepts st) = Some k" by blast
  {
    fix q assume q: "q \<noteq> []" and w: "walk (concepts st) (name a) {} (Some q)"
    from w have "validate_parent (concepts st) i q = Inl CircularReference"
      using validate_parent_circular[OF f] by blast
    from updateConceptParent_rejected[OF l k q this]
    have "updateConceptParent E s i (Some q) = (Inl CircularReference, s1)" .
  } note rej = this
  {
    assume n: "name a \<noteq> []"
    then have "walk (concepts st) (name a) {} (Some (name a))" by (simp add: walk_Some)
    from rej[OF n this]
    show "updateConceptParent E s i (Some (name a)) = (Inl CircularReference, s1)" .
  }
  {
    fix b assume b: "b \<noteq> [] \<and> (b, name a) \<in> (parent_edges (concepts st))\<^sup>+"
    then have "(b, name a) \<in> (parent_edges (concepts st))\<^sup>*" by (simp add: trancl_into_rtrancl)
    from reaches_chain[OF this] b obtain j where "chain (concepts st) (Some b) j = Some (name a)"
      by blast
    then have "walk_finds (concepts st) (name a) b" unfolding walk_finds_def by blast
    then have "walk (concepts st) (name a) {} (Some b)" by (simp add: walk_walk_finds)
    from rej[OF _ this] b
    show "updateConceptParent E s i (Some b) = (Inl CircularReference, s1)" by blast
  }
  {
    fix p assume p: "p \<noteq> [] \<and> p \<notin> name ` set (concepts st)"
    then have "find (\<lambda>c. name c = p) (concepts st) = None"
      by (auto simp: find_None_iff)
    then have "validate_parent (concepts st) i p = Inl (ParentNotFound p)"
      by (simp add: validate_parent_def)
    from updateConceptParent_rejected[OF l k _ this] p
    show "updateConceptParent E s i (Some p) = (Inl (ParentNotFound p), s1)" by blast
  }
  show "updateConceptParent E s i (Some []) = updateConceptParent E s i None"
    by (rule updateConceptParent_empty_name)
  show "store s1 = Some st" by (rule load_store[OF l])
  show "disk s1 = disk s" by (rule load_disk[OF l])
  assume "store s = Some st"
  from load_cached[OF this, of E] l show "s1 = s" by simp
qed

theorem reparent_rejections_leave_store_unchanged_witness:
  "load rt0 (svc_with [hooks, useState]) = (store_of [hooks, useState], svc_with [hooks, useState]) \<and>
   find (\<lambda>c. id' c = ''a'') (concepts (store_of [hooks, useState])) = Some hooks \<and>
   name hooks \<noteq> [] \<and>
   (''useState'', name hooks) \<in> (parent_edges (concepts (store_of [hooks, useState])))\<^sup>+ \<and>
   ''Vue'' \<notin> name ` set (concepts (store_of [hooks, useState])) \<and>
   updateConceptParent rt0 (svc_with [hooks, useState]) ''a'' (Some (name hooks))
     = (Inl CircularReference, svc_with [hooks, useState]) \<and>
   updateConceptParent rt0 (svc_with [hooks, useState]) ''a'' (Some ''useState'')
     = (Inl CircularReference, svc_with [hooks, useState]) \<and>
   updateConceptParent rt0 (svc_with [hooks, useState]) ''a'' (Some ''Vue'')
     = (Inl (ParentNotFound ''Vue''), svc_with [hooks, useState])"
proof -
  have h1: "load rt0 (svc_with [hooks, useState]) = (store_of [hooks, useState], svc_with [hooks, useState])"
    by (rule svc_with_load)
  have h2: "find (\<lambda>c. id' c = ''a'') (concepts (store_of [hooks, useState])) = Some hooks"
    by (simp add: fixture_defs)
  have n: "name hooks \<noteq> []" by (simp add: fixture_defs)
  have "(''useState'', name hooks) \<in> parent_edges (concepts (store_of [hooks, useState]))"
    by (simp add: parent_edges_def parent_of_def fixture_defs)
  then have t: "(''useState'', name hooks) \<in> (parent_edges (concepts (store_of [hooks, useState])))\<^sup>+"
    by (rule r_into_trancl)
  have v: "''Vue'' \<notin> name ` set (concepts (store_of [hooks, useState]))"
    by (simp add: fixture_defs)
  have u: "''useState'' \<noteq> []" "''Vue'' \<noteq> []" by simp_all
  from reparent_rejections_leave_store_unchanged[OF h1 h2] n t v u h1 h2 show ?thesis by blast
qed

text \<open>
  C5 as stated fails for creation: \<^verbatim>\<open>addConcept\<close> copies the extraction's parent without
  looking it up. On the empty store the concept \<^verbatim>\<open>useState\<close> is created with the parent
  \<^verbatim>\<open>React Hooks\<close>, a name no concept has.
\<close>

theorem addConcept_unchecked_parent_counterexample:
  "fst (addConcept rt0 svc0
      \<lparr>ExtractedConcept.name = ''useState'', ExtractedConcept.category = library,
       ExtractedConcept.parent = Some ''React Hooks'', ExtractedConcept.explanation = ''state hook''\<rparr> None)
     = Inr (new_concept ''id'' ''t+''
        \<lparr>ExtractedConcept.name = ''useState'', ExtractedConcept.category = library,
         ExtractedConcept.parent = Some ''React Hooks'', ExtractedConcept.explanation = ''state hook''\<rparr> None) \<and>
   parent (new_concept ''id'' ''t+''
        \<lparr>ExtractedConcept.name = ''useState'', ExtractedConcept.category = library,
         ExtractedConcept.parent = Some ''React Hooks'', ExtractedConcept.explanation = ''state hook''\<rparr> None)
     = Some ''React Hooks'' \<and>
   concepts (fst (load rt0 svc0)) = []"
  by (simp add: addConcept_def getConceptByName_def load_def read_store_def empty_store_def
        svc0_def rt0_def save_def new_concept_def Let_def)

text \<open>
  C5, as amended. A reparent that assigns a non-empty parent name, that is one that returns
  the concept or changes the service beyond loading, has found a concept with that name
  in the store as loaded; the concept returned holds the name as its parent.
\<close>

theorem reparent_parent_exists:
  assumes l: "load E s = (st, s1)" and p: "p \<noteq> []"
  shows "(fst (updateConceptParent E s i (Some p)) = Inr c \<longrightarrow>
            parent c = Some p \<and> p \<in> name ` set (concepts st)) \<and>
         (snd (updateConceptParent E s i (Some p)) \<noteq> s1 \<longrightarrow> p \<in> name ` set (concepts st))"
proof (cases "findIndex (\<lambda>c. id' c = i) (concepts st)")
  case None
  from updateConceptParent_missing[OF l None] show ?thesis by simp
next
  case (Some k)
  show ?thesis
  proof (cases "validate_parent (concepts st) i p")
    case (Inl e)
    from updateConceptParent_rejected[OF l Some p Inl] show ?thesis by simp
  next
    case (Inr u)
    then have v: "truthy (Some p) \<longrightarrow> validate_parent (concepts st) i (the (Some p)) = Inr ()"
      by simp
    from Inr have "find (\<lambda>c. name c = p) (concepts st) \<noteq> None"
      by (auto simp: validate_parent_def split: option.splits)
    then have m: "p \<in> name ` set (concepts st)"
      by (auto simp: find_None_iff)
    let ?s2 = "s1\<lparr>clock := Suc (clock s1),
                      store := Some (st\<lparr>concepts := (concepts st)
                         [k := (concepts st ! k)\<lparr>parent := (if truthy (Some p) then Some p else None),
                                lastSeen := date_at E (clock s1)\<rparr>]\<rparr>)\<rparr>"
    obtain r s3 where sv: "save E ?s2 = (r, s3)" by (cases "save E ?s2")
    have "fst (updateConceptParent E s i (Some p)) = Inr c \<longrightarrow> parent c = Some p"
      unfolding updateConceptParent_accepted[OF l Some v] sv using p by (cases r) auto
    with m show ?thesis by simp
  qed
qed

theorem reparent_parent_exists_witness:
  "load rt0 (svc_with [hooks, useState]) = (store_of [hooks, useState], svc_with [hooks, useState]) \<and>
   fst (updateConceptParent rt0 (svc_with [hooks, useState]) ''b'' (Some ''React Hooks''))
     = Inr (useState\<lparr>lastSeen := ''t''\<rparr>) \<and>
   parent (useState\<lparr>lastSeen := ''t''\<rparr>) = Some ''React Hooks'' \<and>
   ''React Hooks'' \<in> name ` set (concepts (store_of [hooks, useState]))"
proof -
  have h1: "load rt0 (svc_with [hooks, useState]) = (store_of [hooks, useState], svc_with [hooks, useState])"
    by (rule svc_with_load)
  have e: "fst (updateConceptParent rt0 (svc_with [hooks, useState]) ''b'' (Some ''React Hooks''))
     = Inr (useState\<lparr>lastSeen := ''t''\<rparr>)"
    unfolding updateConceptParent_def h1
    by (simp add: fixture_defs validate_parent_def wouldCreateCycle_def walk_Some walk_None
          save_def svc_with_def svc0_def rt0_def Let_def)
  from reparent_parent_exists[OF h1, of "''React Hooks''" "''b''" "useState\<lparr>lastSeen := ''t''\<rparr>"] e h1
  show ?thesis by simp
qed

subsection \<open>The parent graph along a sequence of calls\<close>

lemma find_distinct_name:
  assumes "distinct (map name cs)" "c \<in> set cs"
  shows "find (\<lambda>d. name d = name c) cs = Some c"
  using assms
proof (induction cs)
  case Nil then show ?case by simp
next
  case (Cons a cs)
  then show ?case by (cases "a = c") (auto simp: image_iff)
qed

lemma parent_edges_distinct:
  assumes "distinct (map name cs)"
  shows "parent_edges cs = {(name c, p) |c p. c \<in> set cs \<and> parent c = Some p \<and> p \<noteq> []}"
proof (intro equalityI subsetI)
  fix e assume "e \<in> parent_edges cs"
  then obtain n p where e: "e = (n, p)" "parent_of cs n = Some p" "p \<noteq> []"
    by (auto simp: parent_edges_def)
  then obtain c where c: "find (\<lambda>d. name d = n) cs = Some c" "parent c = Some p"
    by (auto simp: parent_of_def split: option.splits)
  from find_Some_in[OF c(1)] have "c \<in> set cs" "name c = n" by auto
  with e c show "e \<in> {(name c, p) |c p. c \<in> set cs \<and> parent c = Some p \<and> p \<noteq> []}" by blast
next
  fix e assume "e \<in> {(name c, p) |c p. c \<in> set cs \<and> parent c = Some p \<and> p \<noteq> []}"
  then obtain c p where e: "e = (name c, p)" "c \<in> set cs" "parent c = Some p" "p \<noteq> []" by blast
  from find_distinct_name[OF assms e(2)] e show "e \<in> parent_edges cs"
    by (simp add: parent_edges_def parent_of_def)
qed















section \<open>Properties of the hierarchy builder\<close>

lemma find_app:
  "find P (xs @ ys) = (case find P xs of None \<Rightarrow> find P ys | Some x \<Rightarrow> Some x)"
  by (induction xs) auto

lemma create_nodes_gen:
  "foldl (\<lambda>nodeMap c. nodeMap(name c \<mapsto> \<lparr>concept = c, children = []\<rparr>)) m0 cs n =
     (case find (\<lambda>c. name c = n) (rev cs) of
        None \<Rightarrow> m0 n
      | Some c \<Rightarrow> Some \<lparr>concept = c, children = []\<rparr>)"
proof (induction cs arbitrary: m0)
  case Nil
  then show ?case by simp
next
  case (Cons a cs)
  show ?case
    unfolding foldl_Cons Cons.IH
    by (simp add: find_app split: option.splits)
qed

lemma find_rev_distinct:
  assumes "distinct (map name cs)"
  shows "find (\<lambda>c. name c = n) (rev cs) = find (\<lambda>c. name c = n) cs"
proof (cases "n \<in> name ` set cs")
  case True
  then obtain c where c: "c \<in> set cs" "name c = n" by auto
  have "distinct (map name (rev cs))" using assms by (simp add: rev_map[symmetric])
  from find_distinct_name[OF this, of c] find_distinct_name[OF assms, of c] c show ?thesis by simp
next
  case False
  then have "find (\<lambda>c. name c = n) (rev cs) = None" "find (\<lambda>c. name c = n) cs = None"
    by (auto simp: find_None_iff)
  then show ?thesis by simp
qed

lemma create_nodes_distinct:
  assumes "distinct (map name cs)"
  shows "create_nodes cs n =
     map_option (\<lambda>c. \<lparr>concept = c, children = []\<rparr>) (find (\<lambda>c. name c = n) cs)"
  unfolding create_nodes_def create_nodes_gen find_rev_distinct[OF assms]
  by (simp split: option.splits)

lemma link_nodes_gen:
  "foldl link_node (m0, r0) pre =
     (\<lambda>n. map_option
            (\<lambda>nd. nd\<lparr>children := children nd @
                map name (filter (\<lambda>d. truthy (parent d) \<and> parent d = Some n) pre)\<rparr>) (m0 n),
      r0 @ map name (filter (\<lambda>c. \<not> (truthy (parent c) \<and> the (parent c) \<in> dom m0)) pre))"
proof (induction pre arbitrary: m0 r0)
  case Nil
  have "(\<lambda>n. map_option (\<lambda>nd. nd\<lparr>children := children nd @ []\<rparr>) (m0 n)) = m0"
    by (rule ext) (simp add: option.map_ident)
  then show ?case by simp
next
  case (Cons c pre)
  show ?case
  proof (cases "truthy (parent c) \<and> the (parent c) \<in> dom m0")
    case False
    then have l: "link_node (m0, r0) c = (m0, r0 @ [name c])"
      by (auto simp: link_node_def Let_def split: option.splits)
    have "map_option (\<lambda>nd. nd\<lparr>children := children nd @
                map name (filter (\<lambda>d. truthy (parent d) \<and> parent d = Some n) (c # pre))\<rparr>) (m0 n)
        = map_option (\<lambda>nd. nd\<lparr>children := children nd @
                map name (filter (\<lambda>d. truthy (parent d) \<and> parent d = Some n) pre)\<rparr>) (m0 n)" for n
    proof (cases "truthy (parent c) \<and> parent c = Some n")
      case True
      with False have "m0 n = None" by auto
      then show ?thesis by simp
    next
      case False
      then show ?thesis by auto
    qed
    then show ?thesis
      unfolding foldl_Cons l Cons.IH using False by simp
  next
    case True
    then obtain p nd where p: "parent c = Some p" "p \<noteq> []" "m0 p = Some nd"
      by (cases "parent c") auto
    let ?m1 = "m0(p \<mapsto> nd\<lparr>children := children nd @ [name c]\<rparr>)"
    have l: "link_node (m0, r0) c = (?m1, r0)"
      using p by (simp add: link_node_def Let_def)
    have d: "dom ?m1 = dom m0" using p by auto
    have "map_option (\<lambda>nd. nd\<lparr>children := children nd @
                map name (filter (\<lambda>d. truthy (parent d) \<and> parent d = Some n) pre)\<rparr>) (?m1 n)
        = map_option (\<lambda>nd. nd\<lparr>children := children nd @
                map name (filter (\<lambda>d. truthy (parent d) \<and> parent d = Some n) (c # pre))\<rparr>) (m0 n)" for n
      using p by (cases "n = p") auto
    then show ?thesis
      unfolding foldl_Cons l Cons.IH d using True by simp
  qed
qed

lemma buildTree_distinct:
  assumes "distinct (map name cs)"
  shows "buildTree cs =
     (\<lambda>n. map_option (\<lambda>c. \<lparr>concept = c, children = kids cs n\<rparr>) (find (\<lambda>c. name c = n) cs),
      map name (filter (\<lambda>c. \<not> resolves cs c) cs))"
proof -
  have dm: "dom (create_nodes cs) = name ` set cs"
    using create_nodes_distinct[OF assms]
    by (auto simp: dom_def find_None_iff image_iff)
  show ?thesis
    unfolding buildTree_def link_nodes_gen dm
    by (auto simp: create_nodes_distinct[OF assms] kids_def resolves_def option.map_comp comp_def
          )
qed

lemma those_map_Some:
  "(\<And>x. x \<in> set xs \<Longrightarrow> f x = Some (g x)) \<Longrightarrow> those (map f xs) = Some (map g xs)"
  by (induction xs) auto

lemma those_map_mono:
  "(\<And>x y. x \<in> set xs \<Longrightarrow> f x = Some y \<Longrightarrow> f' x = Some y) \<Longrightarrow>
     those (map f xs) = Some ys \<Longrightarrow> those (map f' xs) = Some ys"
proof (induction xs arbitrary: ys)
  case Nil
  then show ?case by simp
next
  case (Cons x xs)
  from Cons.prems(2) obtain y ys' where y: "f x = Some y" "those (map f xs) = Some ys'" "ys = y # ys'"
    by (auto split: option.splits)
  from Cons.prems(1)[of x y] y have "f' x = Some y" by simp
  moreover from Cons.IH[OF _ y(2)] Cons.prems(1) have "those (map f' xs) = Some ys'" by simp
  ultimately show ?case using y by simp
qed

lemma materialize_mono:
  "materialize fuel m n = Some t \<Longrightarrow> fuel \<le> fuel' \<Longrightarrow> materialize fuel' m n = Some t"
proof (induction fuel arbitrary: fuel' n t)
  case 0
  then show ?case by simp
next
  case (Suc fuel)
  then obtain f'' where f: "fuel' = Suc f''" "fuel \<le> f''" by (cases fuel') auto
  from Suc.prems(1) obtain node ts where n: "m n = Some node"
    "those (map (materialize fuel m) (children node)) = Some ts" "t = Tree (concept node) ts"
    by (auto split: option.splits)
  have "those (map (materialize f'' m) (children node)) = Some ts"
    using Suc.IH f(2) by (intro those_map_mono[OF _ n(2)]) blast
  with n f show ?case by simp
qed

lemma distinct_concat_map:
  assumes "distinct ks" and "\<And>k. k \<in> set ks \<Longrightarrow> distinct (f k)"
    and "\<And>k k'. k \<in> set ks \<Longrightarrow> k' \<in> set ks \<Longrightarrow> k \<noteq> k' \<Longrightarrow> set (f k) \<inter> set (f k') = {}"
  shows "distinct (concat (map f ks))"
  using assms
proof (induction ks)
  case Nil
  then show ?case by simp
next
  case (Cons k ks)
  have "distinct (concat (map f ks))" using Cons by simp
  moreover have "distinct (f k)" using Cons.prems(2) by simp
  moreover have "set (f k) \<inter> set (f k') = {}" if "k' \<in> set ks" for k'
    using Cons.prems(3)[of k k'] Cons.prems(1) that by auto
  ultimately show ?case by auto
qed

lemma single_valued_parent_edges: "single_valued (parent_edges cs)"
  by (auto simp: single_valued_def parent_edges_def)

lemma parent_edges_names: "(x, y) \<in> parent_edges cs \<Longrightarrow> x \<in> name ` set cs"
  using find_Some_in[of "\<lambda>c. name c = x" cs]
  by (auto simp: parent_edges_def parent_of_def split: option.splits)

lemma finite_parent_edges: "finite (parent_edges cs)"
proof (rule finite_subset)
  show "parent_edges cs \<subseteq> (name ` set cs) \<times> (the ` parent ` set cs)"
  proof
    fix e assume e: "e \<in> parent_edges cs"
    then obtain x y where xy: "e = (x, y)" "parent_of cs x = Some y" by (auto simp: parent_edges_def)
    then obtain c where "find (\<lambda>c. name c = x) cs = Some c" "parent c = Some y"
      by (auto simp: parent_of_def split: option.splits)
    with find_Some_in[of "\<lambda>c. name c = x" cs c] have "c \<in> set cs" "name c = x" "the (parent c) = y"
      by auto
    with xy show "e \<in> (name ` set cs) \<times> (the ` parent ` set cs)" by force
  qed
  show "finite ((name ` set cs) \<times> (the ` parent ` set cs))" by simp
qed

lemma kids_edges:
  assumes "distinct (map name cs)"
  shows "k \<in> set (kids cs n) \<longleftrightarrow> (k, n) \<in> parent_edges cs"
  unfolding parent_edges_distinct[OF assms] kids_def by auto

lemma distinct_kids: "distinct (map name cs) \<Longrightarrow> distinct (kids cs n)"
  unfolding kids_def by (rule distinct_map_filter)

lemma name_inj:
  assumes "distinct (map name cs)" "c \<in> set cs" "d \<in> set cs" "name c = name d"
  shows "c = d"
  using assms by (meson distinct_map inj_onD)

lemma below_unfold:
  assumes d: "distinct (map name cs)" and c: "c \<in> set cs"
  shows "below cs (name c) = insert c (\<Union>k\<in>set (kids cs (name c)). below cs k)"
proof (intro equalityI subsetI)
  fix x assume "x \<in> below cs (name c)"
  then have x: "x \<in> set cs" "(name x, name c) \<in> (parent_edges cs)\<^sup>*" by (auto simp: below_def)
  from x(2) show "x \<in> insert c (\<Union>k\<in>set (kids cs (name c)). below cs k)"
  proof (cases rule: rtranclE)
    case base
    with name_inj[OF d x(1) c] show ?thesis by simp
  next
    case (step k)
    then have "k \<in> set (kids cs (name c))" using kids_edges[OF d] by simp
    moreover from step x(1) have "x \<in> below cs k" by (simp add: below_def)
    ultimately show ?thesis by blast
  qed
next
  fix x assume "x \<in> insert c (\<Union>k\<in>set (kids cs (name c)). below cs k)"
  then consider "x = c" | k where "k \<in> set (kids cs (name c))" "x \<in> below cs k" by blast
  then show "x \<in> below cs (name c)"
  proof cases
    case 1
    with c show ?thesis by (simp add: below_def)
  next
    case 2
    then have "(k, name c) \<in> parent_edges cs" "x \<in> set cs" "(name x, k) \<in> (parent_edges cs)\<^sup>*"
      using kids_edges[OF d] by (auto simp: below_def)
    then show ?thesis by (auto simp: below_def intro: rtrancl_into_rtrancl)
  qed
qed

lemma below_kid_not_self:
  assumes d: "distinct (map name cs)" and a: "acyclic (parent_edges cs)"
    and k: "k \<in> set (kids cs (name c))"
  shows "c \<notin> below cs k"
proof
  assume "c \<in> below cs k"
  then have "(name c, k) \<in> (parent_edges cs)\<^sup>*" by (simp add: below_def)
  moreover from k have "(k, name c) \<in> parent_edges cs" using kids_edges[OF d] by simp
  ultimately have "(name c, name c) \<in> (parent_edges cs)\<^sup>+" by (rule rtrancl_into_trancl1)
  with a show False by (simp add: acyclic_def)
qed

lemma siblings_apart:
  assumes a: "acyclic (parent_edges cs)"
    and e: "(k1, n) \<in> parent_edges cs" "(k2, n) \<in> parent_edges cs"
    and r: "(k1, k2) \<in> (parent_edges cs)\<^sup>*"
  shows "k1 = k2"
proof (rule ccontr)
  assume ne: "k1 \<noteq> k2"
  from r ne obtain y where y: "(k1, y) \<in> parent_edges cs" "(y, k2) \<in> (parent_edges cs)\<^sup>*"
    by (auto elim: converse_rtranclE)
  with e(1) have "y = n" using single_valued_parent_edges[of cs] by (auto dest: single_valuedD)
  with y e(2) have "(n, n) \<in> (parent_edges cs)\<^sup>+" by (auto intro: rtrancl_into_trancl1)
  with a show False by (simp add: acyclic_def)
qed

lemma below_kids_disjoint:
  assumes d: "distinct (map name cs)" and a: "acyclic (parent_edges cs)"
    and k: "k1 \<in> set (kids cs n)" "k2 \<in> set (kids cs n)" "k1 \<noteq> k2"
  shows "below cs k1 \<inter> below cs k2 = {}"
proof (rule ccontr)
  assume "below cs k1 \<inter> below cs k2 \<noteq> {}"
  then obtain x :: Concept where
    x: "(name x, k1) \<in> (parent_edges cs)\<^sup>*" "(name x, k2) \<in> (parent_edges cs)\<^sup>*"
    by (auto simp: below_def)
  from single_valued_confluent[OF single_valued_parent_edges x]
  have "(k1, k2) \<in> (parent_edges cs)\<^sup>* \<or> (k2, k1) \<in> (parent_edges cs)\<^sup>*" .
  with siblings_apart[OF a] k kids_edges[OF d] show False by blast
qed

lemma node_of_distinct:
  assumes d: "distinct (map name cs)" and c: "c \<in> set cs"
  shows "fst (buildTree cs) (name c) = Some \<lparr>concept = c, children = kids cs (name c)\<rparr>"
  unfolding buildTree_distinct[OF d] using find_distinct_name[OF d c] by simp

lemma finite_below: "finite (below cs n)"
  by (simp add: below_def)

lemma below_subset: "below cs n \<subseteq> set cs"
  by (auto simp: below_def)

lemma subtree_materializes:
  assumes d: "distinct (map name cs)" and a: "acyclic (parent_edges cs)"
  shows "c \<in> set cs \<Longrightarrow> name c = n \<Longrightarrow>
     \<exists>t. materialize (card (below cs n)) (fst (buildTree cs)) n = Some t \<and>
         root_concept t = c \<and> distinct (flatten t) \<and> set (flatten t) = below cs n"
proof (induction n arbitrary: c rule: wf_induct_rule[OF finite_acyclic_wf[OF finite_parent_edges a]])
  case (1 n)
  let ?m = "fst (buildTree cs)"
  let ?ks = "kids cs n"
  from 1(2,3) have un: "below cs n = insert c (\<Union>k\<in>set ?ks. below cs k)"
    using below_unfold[OF d] by blast
  have notin: "c \<notin> below cs k" if "k \<in> set ?ks" for k
    using below_kid_not_self[OF d a, of k c] that 1(3) by simp
  have cin: "c \<in> below cs n" by (subst un) simp
  have ksub: "below cs k \<subseteq> below cs n" if "k \<in> set ?ks" for k
    by (subst un) (use that in blast)
  have cardlt: "card (below cs k) < card (below cs n)" if "k \<in> set ?ks" for k
  proof (rule psubset_card_mono[OF finite_below])
    from ksub[OF that] cin notin[OF that] show "below cs k \<subset> below cs n" by blast
  qed
  from cin finite_below[of cs n] have "card (below cs n) \<noteq> 0" by auto
  then obtain j where j: "card (below cs n) = Suc j"
    by (cases "card (below cs n)") simp_all
  have ex: "\<exists>t. materialize j ?m k = Some t \<and> distinct (flatten t) \<and> set (flatten t) = below cs k"
    if "k \<in> set ?ks" for k
  proof -
    from that have e: "(k, n) \<in> parent_edges cs" using kids_edges[OF d] by simp
    from that obtain dk where dk: "dk \<in> set cs" "name dk = k" by (auto simp: kids_def)
    from "1.IH"[OF e dk] obtain t where
      t: "materialize (card (below cs k)) ?m k = Some t" "distinct (flatten t)"
         "set (flatten t) = below cs k" by blast
    from cardlt[OF that] j have "card (below cs k) \<le> j" by simp
    from materialize_mono[OF t(1) this] t show ?thesis by blast
  qed
  define g where "g k = the (materialize j ?m k)" for k
  have g: "materialize j ?m k = Some (g k)" "distinct (flatten (g k))" "set (flatten (g k)) = below cs k"
    if "k \<in> set ?ks" for k
  proof -
    from ex[OF that] obtain t where t: "materialize j ?m k = Some t" "distinct (flatten t)"
      "set (flatten t) = below cs k" by blast
    then have "g k = t" by (simp add: g_def)
    with t show "materialize j ?m k = Some (g k)" "distinct (flatten (g k))"
      "set (flatten (g k)) = below cs k" by simp_all
  qed
  have th: "those (map (materialize j ?m) ?ks) = Some (map g ?ks)"
    using g(1) by (rule those_map_Some)
  have nd: "?m n = Some \<lparr>concept = c, children = ?ks\<rparr>"
    using node_of_distinct[OF d 1(2)] 1(3) by simp
  let ?t = "Tree c (map g ?ks)"
  have m: "materialize (card (below cs n)) ?m n = Some ?t"
    unfolding j by (simp add: nd th)
  have fl: "flatten ?t = c # concat (map (\<lambda>k. flatten (g k)) ?ks)"
    by (simp add: comp_def)
  have dc: "distinct (concat (map (\<lambda>k. flatten (g k)) ?ks))"
  proof (rule distinct_concat_map)
    show "distinct ?ks" by (rule distinct_kids[OF d])
    show "distinct (flatten (g k))" if "k \<in> set ?ks" for k using g(2)[OF that] .
    show "set (flatten (g k)) \<inter> set (flatten (g k')) = {}"
      if "k \<in> set ?ks" "k' \<in> set ?ks" "k \<noteq> k'" for k k'
      using below_kids_disjoint[OF d a that] g(3) that by simp
  qed
  have sc: "set (concat (map (\<lambda>k. flatten (g k)) ?ks)) = (\<Union>k\<in>set ?ks. below cs k)"
    using g(3) by auto
  have "c \<notin> (\<Union>k\<in>set ?ks. below cs k)" using notin by blast
  then have df: "distinct (flatten ?t)" by (simp only: fl distinct.simps sc dc) simp
  have sf: "set (flatten ?t) = below cs n" by (subst un) (simp only: fl list.set sc)
  have rt: "root_concept ?t = c" by simp
  from m rt df sf show ?case by blast
qed

lemma reaches_root:
  assumes d: "distinct (map name cs)" and a: "acyclic (parent_edges cs)"
  shows "c \<in> set cs \<Longrightarrow> name c = n \<Longrightarrow>
     \<exists>r\<in>set cs. \<not> resolves cs r \<and> (n, name r) \<in> (parent_edges cs)\<^sup>*"
proof (induction n arbitrary: c
    rule: wf_induct_rule[OF finite_acyclic_wf_converse[OF finite_parent_edges a]])
  case (1 n)
  show ?case
  proof (cases "resolves cs c")
    case False
    with 1(2,3) show ?thesis by blast
  next
    case True
    then obtain p pc where p: "parent c = Some p" "p \<noteq> []" "pc \<in> set cs" "name pc = p"
      by (cases "parent c") (auto simp: resolves_def)
    with 1(2,3) have e: "(n, p) \<in> parent_edges cs"
      unfolding parent_edges_distinct[OF d] by blast
    then have "(p, n) \<in> (parent_edges cs)\<inverse>" by simp
    from "1.IH"[OF this p(3,4)] obtain r where
      "r \<in> set cs" "\<not> resolves cs r" "(p, name r) \<in> (parent_edges cs)\<^sup>*" by blast
    with e show ?thesis by (meson converse_rtrancl_into_rtrancl)
  qed
qed

lemma root_has_no_edge_into_names:
  assumes d: "distinct (map name cs)" and r: "r \<in> set cs" "\<not> resolves cs r"
    and e: "(name r, y) \<in> parent_edges cs"
  shows "y \<notin> name ` set cs"
proof -
  from e obtain c where c: "c \<in> set cs" "name c = name r" "parent c = Some y" "y \<noteq> []"
    unfolding parent_edges_distinct[OF d] by auto
  with name_inj[OF d c(1) r(1)] have "parent r = Some y" by simp
  with r(2) c(4) show ?thesis by (simp add: resolves_def)
qed

lemma roots_apart:
  assumes d: "distinct (map name cs)"
    and r1: "r1 \<in> set cs" "\<not> resolves cs r1" and r2: "r2 \<in> set cs"
    and p: "(name r1, name r2) \<in> (parent_edges cs)\<^sup>*"
  shows "name r1 = name r2"
proof (rule ccontr)
  assume ne: "name r1 \<noteq> name r2"
  with p obtain y where y: "(name r1, y) \<in> parent_edges cs" "(y, name r2) \<in> (parent_edges cs)\<^sup>*"
    by (auto elim: converse_rtranclE)
  from root_has_no_edge_into_names[OF d r1 y(1)] have ny: "y \<notin> name ` set cs" .
  from y(2) show False
  proof (cases rule: converse_rtranclE)
    case base
    with ny r2 show ?thesis by simp
  next
    case (step z)
    with parent_edges_names[of y z cs] ny show ?thesis by simp
  qed
qed

lemma below_roots_disjoint:
  assumes d: "distinct (map name cs)"
    and r1: "r1 \<in> set cs" "\<not> resolves cs r1" and r2: "r2 \<in> set cs" "\<not> resolves cs r2"
    and ne: "name r1 \<noteq> name r2"
  shows "below cs (name r1) \<inter> below cs (name r2) = {}"
proof (rule ccontr)
  assume "below cs (name r1) \<inter> below cs (name r2) \<noteq> {}"
  then obtain x :: Concept where
    x: "(name x, name r1) \<in> (parent_edges cs)\<^sup>*" "(name x, name r2) \<in> (parent_edges cs)\<^sup>*"
    by (auto simp: below_def)
  from single_valued_confluent[OF single_valued_parent_edges x]
  have "(name r1, name r2) \<in> (parent_edges cs)\<^sup>* \<or> (name r2, name r1) \<in> (parent_edges cs)\<^sup>*" .
  with roots_apart[OF d r1 r2(1)] roots_apart[OF d r2 r1(1)] ne show False by auto
qed

text \<open>
  C6, as amended. For a list of concepts with distinct names whose parent graph has no
  cycle, \<^verbatim>\<open>buildTree\<close> gives a forest that holds every concept of the list in exactly one
  node (the nodes carry the records as they were given), and the roots are, in the order
  of the list, the concepts whose parent is null or empty or names no concept of the list.
\<close>

theorem forest_total_when_acyclic:
  assumes d: "distinct (map name cs)" and a: "acyclic (parent_edges cs)"
  shows "\<exists>ts. forest cs = Some ts \<and>
           mset (concat (map flatten ts)) = mset cs \<and>
           map root_concept ts =
             filter (\<lambda>c. \<not> truthy (parent c) \<or> the (parent c) \<notin> name ` set cs) cs"
proof -
  let ?m = "fst (buildTree cs)"
  let ?rs = "filter (\<lambda>c. \<not> resolves cs c) cs"
  have bt: "snd (buildTree cs) = map name ?rs"
    unfolding buildTree_distinct[OF d] by simp
  have ex: "\<exists>t. materialize (Suc (length cs)) ?m (name r) = Some t \<and> root_concept t = r \<and>
       distinct (flatten t) \<and> set (flatten t) = below cs (name r)" if "r \<in> set cs" for r
  proof -
    from subtree_materializes[OF d a that refl] obtain t where
      t: "materialize (card (below cs (name r))) ?m (name r) = Some t" "root_concept t = r"
         "distinct (flatten t)" "set (flatten t) = below cs (name r)" by blast
    have "card (below cs (name r)) \<le> card (set cs)"
      using below_subset by (simp add: card_mono)
    also have "\<dots> \<le> Suc (length cs)" using card_length[of cs] by simp
    finally have "card (below cs (name r)) \<le> Suc (length cs)" .
    from materialize_mono[OF t(1) this] t show ?thesis by blast
  qed
  define g where "g n = the (materialize (Suc (length cs)) ?m n)" for n
  have g: "materialize (Suc (length cs)) ?m (name r) = Some (g (name r))" "root_concept (g (name r)) = r"
    "distinct (flatten (g (name r)))" "set (flatten (g (name r))) = below cs (name r)"
    if "r \<in> set cs" for r
  proof -
    from ex[OF that] obtain t where t: "materialize (Suc (length cs)) ?m (name r) = Some t"
      "root_concept t = r" "distinct (flatten t)" "set (flatten t) = below cs (name r)" by blast
    then have "g (name r) = t" by (simp add: g_def)
    with t show "materialize (Suc (length cs)) ?m (name r) = Some (g (name r))"
      "root_concept (g (name r)) = r" "distinct (flatten (g (name r)))"
      "set (flatten (g (name r))) = below cs (name r)" by simp_all
  qed
  let ?ts = "map g (map name ?rs)"
  have "those (map (materialize (Suc (length cs)) ?m) (map name ?rs)) = Some ?ts"
    using g(1) by (intro those_map_Some) auto
  then have f: "forest cs = Some ?ts"
    by (simp add: forest_def case_prod_beta bt)
  have dcs: "distinct cs" using d by (simp add: distinct_map)
  have dr: "distinct ?rs" using dcs by simp
  have cc: "concat (map flatten ?ts) = concat (map (\<lambda>r. flatten (g (name r))) ?rs)"
    by (simp add: comp_def)
  have dist: "distinct (concat (map (\<lambda>r. flatten (g (name r))) ?rs))"
  proof (rule distinct_concat_map[OF dr])
    show "distinct (flatten (g (name r)))" if "r \<in> set ?rs" for r using g(3) that by simp
    show "set (flatten (g (name r))) \<inter> set (flatten (g (name r'))) = {}"
      if "r \<in> set ?rs" "r' \<in> set ?rs" "r \<noteq> r'" for r r'
    proof -
      from that have rr: "r \<in> set cs" "\<not> resolves cs r" "r' \<in> set cs" "\<not> resolves cs r'" by auto
      with that(3) name_inj[OF d] have "name r \<noteq> name r'" by blast
      from below_roots_disjoint[OF d rr this] g(4) rr show ?thesis by simp
    qed
  qed
  have "set (concat (map (\<lambda>r. flatten (g (name r))) ?rs)) = (\<Union>r\<in>set ?rs. below cs (name r))"
    using g(4) by auto
  also have "\<dots> = set cs"
  proof (intro equalityI subsetI)
    fix x assume "x \<in> (\<Union>r\<in>set ?rs. below cs (name r))"
    then show "x \<in> set cs" using below_subset by blast
  next
    fix x assume x: "x \<in> set cs"
    from reaches_root[OF d a x refl] obtain r where
      "r \<in> set cs" "\<not> resolves cs r" "(name x, name r) \<in> (parent_edges cs)\<^sup>*" by blast
    with x show "x \<in> (\<Union>r\<in>set ?rs. below cs (name r))" by (auto simp: below_def)
  qed
  finally have sc: "set (concat (map flatten ?ts)) = set cs" unfolding cc .
  have dd: "distinct (concat (map flatten ?ts))" unfolding cc by (rule dist)
  have ms: "mset (concat (map flatten ?ts)) = mset cs"
    using set_eq_iff_mset_eq_distinct[OF dd dcs] sc by blast
  have "map root_concept ?ts = map (\<lambda>r. root_concept (g (name r))) ?rs" by (simp add: comp_def)
  also have "\<dots> = map (\<lambda>r. r) ?rs" using g(2) by (intro map_cong) auto
  finally have rc: "map root_concept ?ts = ?rs" by simp
  have "?rs = filter (\<lambda>c. \<not> truthy (parent c) \<or> the (parent c) \<notin> name ` set cs) cs"
    by (simp add: resolves_def)
  with f ms rc show ?thesis by simp
qed

theorem forest_total_when_acyclic_witness:
  "distinct (map name [hooks, useState]) \<and>
   acyclic (parent_edges [hooks, useState]) \<and>
   forest [hooks, useState] = Some [Tree hooks [Tree useState []]] \<and>
   mset (concat (map flatten [Tree hooks [Tree useState []]])) = mset [hooks, useState] \<and>
   map root_concept [Tree hooks [Tree useState []]] = [hooks]"
proof -
  have d: "distinct (map name [hooks, useState])" by (simp add: fixture_defs)
  have "parent_edges [hooks, useState] = {(''useState'', ''React Hooks'')}"
    by (auto simp: parent_edges_def parent_of_def fixture_defs split: if_splits)
  moreover have "acyclic ({} :: (string \<times> string) set)"
    by (simp add: acyclic_def)
  ultimately have a: "acyclic (parent_edges [hooks, useState])"
    by simp
  have f: "forest [hooks, useState] = Some [Tree hooks [Tree useState []]]"
    by (simp add: forest_def buildTree_def create_nodes_def link_node_def fixture_defs Let_def)
  from forest_total_when_acyclic[OF d a] f
  have "mset (concat (map flatten [Tree hooks [Tree useState []]])) = mset [hooks, useState]"
    "map root_concept [Tree hooks [Tree useState []]] =
       filter (\<lambda>c. \<not> truthy (parent c) \<or> the (parent c) \<notin> name ` set [hooks, useState])
         [hooks, useState]"
    by auto
  moreover have "filter (\<lambda>c. \<not> truthy (parent c) \<or> the (parent c) \<notin> name ` set [hooks, useState])
         [hooks, useState] = [hooks]"
    by (simp add: fixture_defs)
  ultimately show ?thesis using d a f by simp
qed

text \<open>
  C6 as stated fails on a list with distinct names that has a cycle: the one concept
  \<^verbatim>\<open>Loop\<close> whose parent is \<^verbatim>\<open>Loop\<close> is pushed to its own children and never to the
  roots, so the forest returned is empty and the concept is in no node of it.
\<close>

theorem buildTree_cycle_counterexample:
  "distinct (map name [loop_concept]) \<and> forest [loop_concept] = Some []"
  by (simp add: forest_def buildTree_def create_nodes_def link_node_def loop_concept_def
        mk_concept_def Let_def)

section \<open>Properties of the scanner\<close>

lemma syntax_char_backslash: "syntax_char (CHR 0x5C)"
  by (simp add: syntax_char_def)

lemma syntax_char_not_b: "syntax_char c \<Longrightarrow> c \<noteq> CHR ''b''"
  by (auto simp: syntax_char_def)

lemma escapeRegex_Cons:
  "escapeRegex (c # n) = (if syntax_char c then [CHR 0x5C, c] else [c]) @ escapeRegex n"
  by (simp add: escapeRegex_def)

lemma escapeRegex_Nil: "escapeRegex [] = []"
  by (simp add: escapeRegex_def)

lemma parse_pattern_plain:
  "c \<noteq> CHR 0x5C \<Longrightarrow> parse_pattern (c # xs) = Lit c # parse_pattern xs"
  by (cases xs) simp_all

lemma parse_pattern_escaped:
  "parse_pattern (escapeRegex n @ rest) = map Lit n @ parse_pattern rest"
proof (induction n)
  case Nil
  then show ?case by (simp add: escapeRegex_Nil)
next
  case (Cons c n)
  show ?case
  proof (cases "syntax_char c")
    case True
    with syntax_char_not_b[OF True] show ?thesis
      by (simp add: escapeRegex_Cons Cons.IH)
  next
    case False
    then have "c \<noteq> CHR 0x5C" using syntax_char_backslash by auto
    with False show ?thesis
      by (simp add: escapeRegex_Cons parse_pattern_plain Cons.IH)
  qed
qed

lemma parse_pattern_name: "parse_pattern (name_pattern n) = Boundary # map Lit n @ [Boundary]"
proof -
  have "parse_pattern (name_pattern n) = Boundary # parse_pattern (escapeRegex n @ [CHR 0x5C, CHR ''b''])"
    by (simp add: name_pattern_def)
  also have "parse_pattern (escapeRegex n @ [CHR 0x5C, CHR ''b'']) = map Lit n @ [Boundary]"
    by (simp add: parse_pattern_escaped)
  finally show ?thesis .
qed

lemma match_literal:
  "k \<le> length l \<Longrightarrow>
   match_atoms (map Lit n @ rest) l k \<longleftrightarrow>
     k + length n \<le> length l \<and>
     map canonicalize (take (length n) (drop k l)) = map canonicalize n \<and>
     match_atoms rest l (k + length n)"
proof (induction n arbitrary: k)
  case Nil
  then show ?case by simp
next
  case (Cons c n)
  show ?case
  proof (cases "k < length l")
    case False
    then show ?thesis by simp
  next
    case True
    then have d: "drop k l = l ! k # drop (Suc k) l" by (simp add: Cons_nth_drop_Suc)
    from True have "Suc k \<le> length l" by simp
    from Cons.IH[OF this] True show ?thesis
      by (auto simp: d)
  qed
qed

lemma regex_test_name:
  "regex_test (name_pattern n) l \<longleftrightarrow> (\<exists>k. word_bounded_at n l k)"
proof
  assume "regex_test (name_pattern n) l"
  then obtain k where k0: "k \<in> set [0..<Suc (length l)]"
    and k2: "match_atoms (Boundary # map Lit n @ [Boundary]) l k"
    unfolding regex_test_def parse_pattern_name list_ex_iff by blast
  from k0 have k1: "k \<le> length l" by auto
  note k = k1 k2
  with match_literal[OF k(1), of n "[Boundary]"] have "word_bounded_at n l k"
    by (simp add: word_bounded_at_def)
  then show "\<exists>k. word_bounded_at n l k" ..
next
  assume "\<exists>k. word_bounded_at n l k"
  then obtain k where w: "word_bounded_at n l k" ..
  then have k: "k \<le> length l" by (simp add: word_bounded_at_def)
  with w match_literal[OF k, of n "[Boundary]"]
  have "match_atoms (Boundary # map Lit n @ [Boundary]) l k"
    by (simp add: word_bounded_at_def)
  moreover from k have "k \<in> set [0..<Suc (length l)]" by auto
  ultimately show "regex_test (name_pattern n) l"
    unfolding regex_test_def parse_pattern_name list_ex_iff by blast
qed

lemma of_char_canonicalize:
  "(of_char (canonicalize c) :: nat) =
     (if (97 \<le> (of_char c :: nat) \<and> (of_char c :: nat) \<le> 122) \<or>
         (224 \<le> (of_char c :: nat) \<and> (of_char c :: nat) \<le> 254 \<and> (of_char c :: nat) \<noteq> 247)
      then of_char c - 32 else of_char c)"
proof (cases "(97 \<le> (of_char c :: nat) \<and> (of_char c :: nat) \<le> 122) \<or>
         (224 \<le> (of_char c :: nat) \<and> (of_char c :: nat) \<le> 254 \<and> (of_char c :: nat) \<noteq> 247)")
  case True
  then have lt: "(of_char c :: nat) - 32 < 256" by arith
  from True have "canonicalize c = char_of ((of_char c :: nat) - 32)"
    unfolding canonicalize_def Let_def by (rule if_P)
  then have "(of_char (canonicalize c) :: nat) = ((of_char c :: nat) - 32) mod 256"
    by (simp only: of_char_of)
  also have "\<dots> = (of_char c :: nat) - 32" using lt by (rule mod_less)
  finally show ?thesis by (simp only: if_P[OF True])
next
  case False
  then have "canonicalize c = c"
    unfolding canonicalize_def Let_def by (rule if_not_P)
  then show ?thesis by (simp only: if_not_P[OF False])
qed

lemma word_nat:
  fixes a :: nat
  shows "((48 \<le> a \<and> a \<le> 57) \<or> (65 \<le> a \<and> a \<le> 90) \<or> a = 95 \<or> (97 \<le> a \<and> a \<le> 122)) =
     (let m = (if (97 \<le> a \<and> a \<le> 122) \<or> (224 \<le> a \<and> a \<le> 254 \<and> a \<noteq> 247) then a - 32 else a)
      in (48 \<le> m \<and> m \<le> 57) \<or> (65 \<le> m \<and> m \<le> 90) \<or> m = 95)"
proof (cases "97 \<le> a \<and> a \<le> 122")
  case True
  then show ?thesis by (simp add: Let_def) arith
next
  case False
  show ?thesis
  proof (cases "224 \<le> a \<and> a \<le> 254 \<and> a \<noteq> 247")
    case True
    with False show ?thesis by (simp add: Let_def) arith
  next
    case h: False
    with False show ?thesis by (simp add: Let_def) arith
  qed
qed

lemma is_word_canonical:
  "is_word c \<longleftrightarrow>
     (let m = of_char (canonicalize c) :: nat
      in (48 \<le> m \<and> m \<le> 57) \<or> (65 \<le> m \<and> m \<le> 90) \<or> m = 95)"
  unfolding of_char_canonicalize is_word_def
  using word_nat[of "of_char c"] by (simp add: Let_def)

lemma canonicalize_word:
  assumes "canonicalize c = canonicalize d"
  shows "is_word c = is_word d"
  unfolding is_word_canonical assms ..

lemma occurrence_nth:
  assumes "k + length n \<le> length l"
    and "map canonicalize (take (length n) (drop k l)) = map canonicalize n"
    and "i < length n"
  shows "canonicalize (l ! (k + i)) = canonicalize (n ! i)"
proof -
  from assms(2) have "map canonicalize (take (length n) (drop k l)) ! i = map canonicalize n ! i"
    by simp
  moreover have "i < length (take (length n) (drop k l))" using assms(1,3) by simp
  ultimately show ?thesis using assms(1,3) by simp
qed

lemma word_bounded_whole_word:
  assumes "word_edged n"
  shows "word_bounded_at n l k \<longleftrightarrow> whole_word_at n l k"
proof (cases "k + length n \<le> length l \<and>
    map canonicalize (take (length n) (drop k l)) = map canonicalize n")
  case False
  then show ?thesis by (auto simp: word_bounded_at_def whole_word_at_def)
next
  case True
  then have le: "k + length n \<le> length l"
    and oc: "map canonicalize (take (length n) (drop k l)) = map canonicalize n" by simp_all
  from assms have ne: "n \<noteq> []" and wh: "is_word (hd n)" and wl: "is_word (last n)"
    by (simp_all add: word_edged_def)
  from ne have pos: "0 < length n" by simp
  from occurrence_nth[OF le oc pos] have "canonicalize (l ! k) = canonicalize (hd n)"
    using ne by (simp add: hd_conv_nth)
  with wh have w1: "is_word (l ! k)" using canonicalize_word by blast
  have "length n - 1 < length n" using pos by simp
  from occurrence_nth[OF le oc this]
  have "canonicalize (l ! (k + (length n - 1))) = canonicalize (last n)"
    using ne by (simp add: last_conv_nth)
  with wl have "is_word (l ! (k + (length n - 1)))" using canonicalize_word by blast
  moreover have "k + (length n - 1) = k + length n - 1" using pos by arith
  ultimately have w2: "is_word (l ! (k + length n - 1))" by simp
  have kl: "k < length l" using le pos by arith
  have b1: "boundary l k \<longleftrightarrow> (k = 0 \<or> \<not> is_word (l ! (k - 1)))"
    using w1 kl by (auto simp: boundary_def)
  have b2: "boundary l (k + length n) \<longleftrightarrow>
      (k + length n = length l \<or> \<not> is_word (l ! (k + length n)))"
    using w2 le pos by (auto simp: boundary_def)
  show ?thesis
    unfolding word_bounded_at_def whole_word_at_def b1 b2 using le oc by simp
qed

lemma regex_test_whole_word:
  "word_edged n \<Longrightarrow> regex_test (name_pattern n) l \<longleftrightarrow> whole_word_match n l"
  by (simp add: regex_test_name whole_word_match_def word_bounded_whole_word)

lemma scanAllConcepts_snoc:
  "scanAllConcepts relative files (cs @ [c]) options =
     (if scanForConcept relative files c options \<noteq> []
      then (scanAllConcepts relative files cs options)
             (id' c \<mapsto> scanForConcept relative files c options)
      else scanAllConcepts relative files cs options)"
  by (simp add: scanAllConcepts_def Let_def)

lemma scanAllConcepts_other:
  "i \<notin> id' ` set cs \<Longrightarrow> scanAllConcepts relative files cs options i = None"
proof (induction cs rule: rev_induct)
  case Nil
  then show ?case by (simp add: scanAllConcepts_def)
next
  case (snoc c cs)
  then show ?case by (simp add: scanAllConcepts_snoc)
qed

lemma scanAllConcepts_at:
  assumes "distinct (map id' cs)" "c \<in> set cs"
  shows "scanAllConcepts relative files cs options (id' c) =
     (if scanForConcept relative files c options = [] then None
      else Some (scanForConcept relative files c options))"
  using assms
proof (induction cs rule: rev_induct)
  case Nil
  then show ?case by simp
next
  case (snoc x cs)
  show ?case
  proof (cases "c = x")
    case True
    from snoc.prems(1) have "id' x \<notin> id' ` set cs" by simp
    from scanAllConcepts_other[OF this] True show ?thesis
      by (simp add: scanAllConcepts_snoc)
  next
    case False
    with snoc.prems have c: "c \<in> set cs" and d: "distinct (map id' cs)" by simp_all
    from snoc.prems(1) have "id' x \<notin> id' ` set cs" by simp
    moreover from c have "id' c \<in> id' ` set cs" by simp
    ultimately have "id' c \<noteq> id' x" by metis
    with snoc.IH[OF d c] show ?thesis by (simp add: scanAllConcepts_snoc)
  qed
qed

lemma scan_file_set:
  "set (scan_file relative options c f) =
     {\<lparr>file' = relative (rootPath options) (fst f), line = i + 1,
        context' = take 100 (trim (split_on (CHR 0x0A) text ! i))\<rparr> |text i.
        snd f = Some text \<and> i < length (split_on (CHR 0x0A) text) \<and>
        regex_test (name_pattern (name c)) (split_on (CHR 0x0A) text ! i)}"
  by (cases "snd f") (auto simp: scan_file_def Let_def)

lemma scanForConcept_set:
  "set (scanForConcept relative files c options) =
     {\<lparr>file' = relative (rootPath options) (fst f), line = i + 1,
        context' = take 100 (trim (split_on (CHR 0x0A) text ! i))\<rparr> |f text i.
        f \<in> set files \<and> snd f = Some text \<and> i < length (split_on (CHR 0x0A) text) \<and>
        regex_test (name_pattern (name c)) (split_on (CHR 0x0A) text ! i)}"
proof -
  have "set (scanForConcept relative files c options) =
      (\<Union>f\<in>set files. set (scan_file relative options c f))"
    by (simp add: scanForConcept_def)
  then show ?thesis unfolding scan_file_set by blast
qed

lemma scanForConcept_empty:
  "scanForConcept relative files c options \<noteq> [] \<longleftrightarrow>
     (\<exists>f\<in>set files. \<exists>text. snd f = Some text \<and>
        (\<exists>l\<in>set (split_on (CHR 0x0A) text). regex_test (name_pattern (name c)) l))"
proof -
  have "scanForConcept relative files c options \<noteq> [] \<longleftrightarrow>
      set (scanForConcept relative files c options) \<noteq> {}" by simp
  also have "\<dots> \<longleftrightarrow> (\<exists>f text i. f \<in> set files \<and> snd f = Some text \<and>
        i < length (split_on (CHR 0x0A) text) \<and>
        regex_test (name_pattern (name c)) (split_on (CHR 0x0A) text ! i))"
    unfolding scanForConcept_set by blast
  also have "\<dots> \<longleftrightarrow> (\<exists>f\<in>set files. \<exists>text. snd f = Some text \<and>
        (\<exists>l\<in>set (split_on (CHR 0x0A) text). regex_test (name_pattern (name c)) l))"
    by (metis in_set_conv_nth)
  finally show ?thesis .
qed

text \<open>
  C8, as amended. A word character is one of the ASCII characters \<^verbatim>\<open>[A-Za-z0-9_]\<close>, and a
  whole-word match of a name in a line is an occurrence of the name, up to case, with no
  word character right before it and none right after it. For concepts with distinct ids
  and any candidate files, a concept whose name begins and ends with a word character
  has its id in the scan result exactly when a line of a readable candidate file holds a
  whole-word match of the name; the locations recorded for it are those of the matching
  lines: the path relative to the root, the number of the line counted from 1, and the
  line trimmed and cut to 100 characters.
\<close>

theorem scan_finds_whole_words:
  assumes d: "distinct (map id' cs)" and c: "c \<in> set cs" and w: "word_edged (name c)"
  shows "(scanAllConcepts relative files cs options (id' c) \<noteq> None \<longleftrightarrow>
            (\<exists>f\<in>set files. \<exists>text. snd f = Some text \<and>
               (\<exists>l\<in>set (split_on (CHR 0x0A) text). whole_word_match (name c) l))) \<and>
         (\<forall>locations. scanAllConcepts relative files cs options (id' c) = Some locations \<longrightarrow>
            set locations =
              {\<lparr>file' = relative (rootPath options) (fst f), line = i + 1,
                 context' = take 100 (trim (split_on (CHR 0x0A) text ! i))\<rparr> |f text i.
                 f \<in> set files \<and> snd f = Some text \<and> i < length (split_on (CHR 0x0A) text) \<and>
                 whole_word_match (name c) (split_on (CHR 0x0A) text ! i)})"
proof (intro conjI allI impI)
  note at = scanAllConcepts_at[OF d c, of relative files options]
  show "scanAllConcepts relative files cs options (id' c) \<noteq> None \<longleftrightarrow>
            (\<exists>f\<in>set files. \<exists>text. snd f = Some text \<and>
               (\<exists>l\<in>set (split_on (CHR 0x0A) text). whole_word_match (name c) l))"
    unfolding at using scanForConcept_empty[of relative files c options]
    by (simp only: regex_test_whole_word[OF w]) auto
  fix locations
  assume "scanAllConcepts relative files cs options (id' c) = Some locations"
  then have "locations = scanForConcept relative files c options"
    unfolding at by (simp split: if_splits)
  then show "set locations =
              {\<lparr>file' = relative (rootPath options) (fst f), line = i + 1,
                 context' = take 100 (trim (split_on (CHR 0x0A) text ! i))\<rparr> |f text i.
                 f \<in> set files \<and> snd f = Some text \<and> i < length (split_on (CHR 0x0A) text) \<and>
                 whole_word_match (name c) (split_on (CHR 0x0A) text ! i)}"
    by (simp add: scanForConcept_set regex_test_whole_word[OF w])
qed

theorem scan_finds_whole_words_witness:
  "distinct (map id' [hooks, useState]) \<and> useState \<in> set [hooks, useState] \<and>
   word_edged (name useState) \<and>
   scanAllConcepts relative0 [file_A, file_B] [hooks, useState] options0 (id' useState) =
     Some [\<lparr>file' = ''A.ts'', line = 5, context' = ''n = useState(0);''\<rparr>] \<and>
   scanAllConcepts relative0 [file_A, file_B] [hooks, useState] options0 (id' hooks) = None \<and>
   (\<exists>f\<in>set [file_A, file_B]. \<exists>text. snd f = Some text \<and>
      (\<exists>l\<in>set (split_on (CHR 0x0A) text). whole_word_match (name useState) l))"
proof -
  have d: "distinct (map id' [hooks, useState])" by (simp add: fixture_defs)
  have c: "useState \<in> set [hooks, useState]" by simp
  have w: "word_edged (name useState)" by code_simp
  have a: "scanAllConcepts relative0 [file_A, file_B] [hooks, useState] options0 (id' useState) =
     Some [\<lparr>file' = ''A.ts'', line = 5, context' = ''n = useState(0);''\<rparr>]"
    by code_simp
  have b: "scanAllConcepts relative0 [file_A, file_B] [hooks, useState] options0 (id' hooks) = None"
    by code_simp
  from a have "scanAllConcepts relative0 [file_A, file_B] [hooks, useState] options0 (id' useState)
      \<noteq> None" by simp
  with scan_finds_whole_words[OF d c w, of relative0 "[file_A, file_B]" options0]
  have "\<exists>f\<in>set [file_A, file_B]. \<exists>text. snd f = Some text \<and>
      (\<exists>l\<in>set (split_on (CHR 0x0A) text). whole_word_match (name useState) l)"
    by blast
  with d c w a b show ?thesis by blast
qed

text \<open>
  C8 as stated fails for a name that ends in a character that is no word character: the
  regular expression asks for a word boundary after the name, which the blank after
  \<^verbatim>\<open>C++\<close> does not give. The line holds \<^verbatim>\<open>C++\<close> as a whole word, and the scan result has no
  entry for the concept.
\<close>

theorem scan_word_boundary_counterexample:
  "cpp \<in> set [cpp] \<and> distinct (map id' [cpp]) \<and>
   whole_word_at (name cpp) ''I use C++ daily'' 6 \<and>
   split_on (CHR 0x0A) ''I use C++ daily'' = [''I use C++ daily''] \<and>
   scanAllConcepts relative0 [(''/p/a.ts'', Some ''I use C++ daily'')] [cpp] options0 (id' cpp) = None"
  by code_simp

section \<open>The JSON export is read back without loss\<close>

subsection \<open>Strings\<close>

lemma of_char_of_small: "n < 256 \<Longrightarrow> (of_char (char_of (n :: nat)) :: nat) = n"
  by simp

lemma hexval_hexdigit: "d < 16 \<Longrightarrow> hexval (hexdigit d) = Some d"
proof (cases "d < 10")
  case True
  assume "d < 16"
  from True have "(of_char (char_of (48 + d)) :: nat) = 48 + d" by (simp add: of_char_of_small)
  with True show ?thesis by (simp add: hexval_def hexdigit_def Let_def)
next
  case False
  assume d: "d < 16"
  then have "(of_char (char_of (87 + d)) :: nat) = 87 + d" by (simp add: of_char_of_small)
  with False d show ?thesis by (simp add: hexval_def hexdigit_def Let_def)
qed

lemma hexval_zero: "hexval (CHR ''0'') = Some 0"
  by (simp add: hexval_def)

lemma char_of_div_mod: "char_of (16 * ((of_char c :: nat) div 16) + (of_char c :: nat) mod 16) = c"
  by simp

lemma unescape_control:
  assumes "(of_char c :: nat) < 32"
  shows "unescape (CHR ''u'' # CHR ''0'' # CHR ''0'' # hexdigit (of_char c div 16) #
           hexdigit (of_char c mod 16) # X) = Some (c, X)"
proof -
  from assms have "(of_char c :: nat) div 16 < 16" by simp
  then have h1: "hexval (hexdigit (of_char c div 16)) = Some ((of_char c :: nat) div 16)"
    by (rule hexval_hexdigit)
  have h0: "hexval (hexdigit (of_char c mod 16)) = Some ((of_char c :: nat) mod 16)"
    by (rule hexval_hexdigit) simp
  show ?thesis by (simp add: h1 h0 hexval_zero)
qed

lemma parse_chars_escape:
  "parse_chars (escape_char c @ X) =
     (case parse_chars X of None \<Rightarrow> None | Some (xs, r) \<Rightarrow> Some (c # xs, r))"
proof -
  consider (two) "c = CHR 0x22 \<or> c = CHR 0x5C \<or> c = CHR 0x08 \<or> c = CHR 0x0C \<or> c = CHR 0x0A \<or>
       c = CHR 0x0D \<or> c = CHR 0x09"
    | (ctl) "\<not> (c = CHR 0x22 \<or> c = CHR 0x5C \<or> c = CHR 0x08 \<or> c = CHR 0x0C \<or> c = CHR 0x0A \<or>
       c = CHR 0x0D \<or> c = CHR 0x09)" "(of_char c :: nat) < 32"
    | (plain) "\<not> (c = CHR 0x22 \<or> c = CHR 0x5C \<or> c = CHR 0x08 \<or> c = CHR 0x0C \<or> c = CHR 0x0A \<or>
       c = CHR 0x0D \<or> c = CHR 0x09)" "\<not> (of_char c :: nat) < 32"
    by blast
  then show ?thesis
  proof cases
    case two
    then show ?thesis by (auto simp: escape_char_def)
  next
    case ctl
    then have "escape_char c = [CHR 0x5C, CHR ''u'', CHR ''0'', CHR ''0'',
              hexdigit (of_char c div 16), hexdigit (of_char c mod 16)]"
      by (simp add: escape_char_def)
    then show ?thesis by (simp add: unescape_control[OF ctl(2)] del: unescape.simps)
  next
    case plain
    then have "escape_char c = [c]" by (simp add: escape_char_def)
    with plain show ?thesis by simp
  qed
qed

lemma parse_chars_quoted:
  "parse_chars (concat (map escape_char s) @ CHR 0x22 # rest) = Some (s, rest)"
proof (induction s)
  case Nil
  then show ?case by simp
next
  case (Cons c s)
  have "parse_chars (concat (map escape_char (c # s)) @ CHR 0x22 # rest) =
      parse_chars (escape_char c @ (concat (map escape_char s) @ CHR 0x22 # rest))" by simp
  also have "\<dots> = Some (c # s, rest)"
    unfolding parse_chars_escape Cons.IH by simp
  finally show ?case .
qed

lemma quote_parse: "quote s @ rest = CHR 0x22 # (concat (map escape_char s) @ CHR 0x22 # rest)"
  by (simp add: quote_def)

subsection \<open>Numbers\<close>

lemma of_char_digit: "d < 10 \<Longrightarrow> (of_char (char_of (48 + d :: nat)) :: nat) = 48 + d"
  by (simp add: of_char_of_small)

lemma is_digit_char: "d < 10 \<Longrightarrow> is_digit (char_of (48 + d :: nat))"
  by (simp add: is_digit_def of_char_digit)

lemma digit_value_char: "d < 10 \<Longrightarrow> digit_value (char_of (48 + d :: nat)) = d"
  by (simp add: digit_value_def of_char_digit)

lemma digits_are_digits: "c \<in> set (digits n) \<Longrightarrow> is_digit c"
proof (induction n arbitrary: c rule: digits.induct)
  case (1 n)
  show ?case
  proof (cases "n < 10")
    case True
    with "1.prems" show ?thesis by (simp add: digits.simps[of n] is_digit_char)
  next
    case False
    with "1.prems" have "c \<in> set (digits (n div 10)) \<or> c = char_of (48 + n mod 10)"
      by (auto simp: digits.simps[of n])
    then show ?thesis
    proof
      assume "c \<in> set (digits (n div 10))"
      with "1.IH"[OF False] show ?thesis by simp
    next
      assume "c = char_of (48 + n mod 10)"
      then show ?thesis by (simp add: is_digit_char)
    qed
  qed
qed

lemma digits_nonempty: "digits n \<noteq> []"
  by (subst digits.simps) simp

lemma digits_value: "foldl (\<lambda>n c. 10 * n + digit_value c) 0 (digits n) = n"
proof (induction n rule: digits.induct)
  case (1 n)
  show ?case
  proof (cases "n < 10")
    case True
    then show ?thesis by (simp add: digits.simps[of n] digit_value_char)
  next
    case False
    with "1.IH" have "foldl (\<lambda>n c. 10 * n + digit_value c) 0 (digits (n div 10)) = n div 10" by simp
    with False show ?thesis by (simp add: digits.simps[of n] digit_value_char)
  qed
qed

lemma digits_hd: "0 < n \<Longrightarrow> hd (digits n) \<noteq> CHR ''0''"
proof (induction n rule: digits.induct)
  case (1 n)
  show ?case
  proof (cases "n < 10")
    case True
    have "(of_char (char_of (48 + n)) :: nat) = 48 + n" using True by (rule of_char_digit)
    moreover have "(of_char (CHR ''0'') :: nat) = 48" by simp
    ultimately have "char_of (48 + n) \<noteq> CHR ''0''" using "1.prems" by (metis add_cancel_right_right less_numeral_extra(3))
    with True show ?thesis by (simp add: digits.simps[of n])
  next
    case False
    then have "0 < n div 10" by simp
    with "1.IH"[OF False] have "hd (digits (n div 10)) \<noteq> CHR ''0''" by simp
    with False digits_nonempty[of "n div 10"] show ?thesis by (simp add: digits.simps[of n])
  qed
qed

lemma digits_length_one: "length (digits n) > 1 \<Longrightarrow> 0 < n"
  by (cases "n = 0") (simp_all add: digits.simps[of 0])

lemma parse_number_digits:
  assumes "number_end rest"
  shows "parse_number (digits n @ rest) = Some (n, rest)"
proof -
  have nd: "rest = [] \<or> \<not> is_digit (hd rest)" using assms by (auto simp: number_end_def)
  have tw: "takeWhile is_digit (digits n @ rest) = digits n"
  proof (cases rest)
    case Nil
    then show ?thesis using digits_are_digits by (simp add: takeWhile_eq_all_conv)
  next
    case (Cons c cs)
    with nd have "\<not> is_digit c" by simp
    with Cons show ?thesis using digits_are_digits by (simp add: takeWhile_append2 del: takeWhile_append)
  qed
  have dw: "dropWhile is_digit (digits n @ rest) = rest"
  proof (cases rest)
    case Nil
    then show ?thesis using digits_are_digits by (simp add: dropWhile_eq_Nil_conv)
  next
    case (Cons c cs)
    with nd have "\<not> is_digit c" by simp
    with Cons show ?thesis using digits_are_digits by (simp add: dropWhile_append2 del: dropWhile_append)
  qed
  have lz: "\<not> (hd (digits n) = CHR ''0'' \<and> length (digits n) > 1)"
    using digits_hd[of n] digits_length_one[of n] by blast
  have re: "\<not> (rest \<noteq> [] \<and> hd rest \<in> set ''.eE'')"
    using assms by (auto simp: number_end_def)
  show ?thesis
    unfolding parse_number_def tw dw Let_def
    using digits_nonempty[of n] lz re by (simp add: digits_value)
qed

subsection \<open>Values\<close>

lemma skip_ws_append: "list_all is_ws W \<Longrightarrow> skip_ws (W @ X) = skip_ws X"
  by (induction W) (simp_all add: skip_ws_def)

lemma skip_ws_Cons: "\<not> is_ws c \<Longrightarrow> skip_ws (c # X) = c # X"
  by (simp add: skip_ws_def)

lemma ws_spaces: "list_all is_ws (spaces n)"
  by (simp add: spaces_def is_ws_def list_all_iff)

lemma ws_indent: "list_all is_ws (CHR 0x0A # spaces n)"
  using ws_spaces by (simp add: is_ws_def)

lemma value_end_number: "value_end rest \<Longrightarrow> number_end rest"
  by (auto simp: value_end_def number_end_def is_digit_def)

lemma parse_value_skip:
  "list_all is_ws W \<Longrightarrow> parse_value fuel (W @ X) = parse_value fuel X"
  by (cases fuel) (simp_all add: skip_ws_append)

lemma fuel_pos: "2 * length (W @ t @ rest) \<le> fuel \<Longrightarrow> t \<noteq> [] \<Longrightarrow> \<exists>f. fuel = Suc f"
  by (cases fuel) auto

lemma round_trips_null: "round_trips JNull"
  unfolding round_trips_def
proof (intro allI impI)
  fix ind fuel W rest
  assume w: "list_all is_ws W" and f: "2 * length (W @ serialize ind JNull @ rest) \<le> fuel"
  from fuel_pos[OF f] obtain f' where "fuel = Suc f'" by auto
  then show "parse_value fuel (W @ serialize ind JNull @ rest) = Some (prune JNull, rest)"
    by (simp add: parse_value_skip[OF w] skip_ws_Cons is_ws_def is_digit_def)
qed

lemma round_trips_undefined: "round_trips JUndefined"
  unfolding round_trips_def
proof (intro allI impI)
  fix ind fuel W rest
  assume w: "list_all is_ws W" and f: "2 * length (W @ serialize ind JUndefined @ rest) \<le> fuel"
  from fuel_pos[OF f] obtain f' where "fuel = Suc f'" by auto
  then show "parse_value fuel (W @ serialize ind JUndefined @ rest) = Some (prune JUndefined, rest)"
    by (simp add: parse_value_skip[OF w] skip_ws_Cons is_ws_def is_digit_def)
qed

lemma round_trips_bool: "round_trips (JBool b)"
  unfolding round_trips_def
proof (intro allI impI)
  fix ind fuel W rest
  assume w: "list_all is_ws W" and f: "2 * length (W @ serialize ind (JBool b) @ rest) \<le> fuel"
  from fuel_pos[OF f] obtain f' where "fuel = Suc f'" by (cases b) auto
  then show "parse_value fuel (W @ serialize ind (JBool b) @ rest) = Some (prune (JBool b), rest)"
    by (cases b) (simp_all add: parse_value_skip[OF w] skip_ws_Cons is_ws_def is_digit_def)
qed

lemma round_trips_string: "round_trips (JString s)"
  unfolding round_trips_def
proof (intro allI impI)
  fix ind fuel W rest
  assume w: "list_all is_ws W" and f: "2 * length (W @ serialize ind (JString s) @ rest) \<le> fuel"
  have "serialize ind (JString s) \<noteq> []" by (simp add: quote_def)
  from fuel_pos[OF f this] obtain f' where "fuel = Suc f'" by auto
  then show "parse_value fuel (W @ serialize ind (JString s) @ rest) = Some (prune (JString s), rest)"
    by (simp add: parse_value_skip[OF w] quote_parse skip_ws_Cons is_ws_def parse_chars_quoted)
qed

lemma digit_not_special:
  assumes "is_digit c"
  shows "\<not> is_ws c" "c \<noteq> CHR 0x22" "c \<noteq> CHR ''[''" "c \<noteq> CHR ''{''"
  using assms by (auto simp: is_digit_def is_ws_def)

lemma round_trips_number: "round_trips (JNumber n)"
  unfolding round_trips_def
proof (intro allI impI)
  fix ind fuel W rest
  assume w: "list_all is_ws W" and e: "value_end rest"
    and f: "2 * length (W @ serialize ind (JNumber n) @ rest) \<le> fuel"
  have "serialize ind (JNumber n) \<noteq> []" by (simp add: digits_nonempty)
  from fuel_pos[OF f this] obtain f' where f': "fuel = Suc f'" by auto
  obtain c cs where d: "digits n = c # cs" using digits_nonempty[of n] by (cases "digits n") auto
  then have c: "is_digit c" using digits_are_digits[of c n] by simp
  have p: "parse_number (c # cs @ rest) = Some (n, rest)"
    using parse_number_digits[OF value_end_number[OF e], of n] d by simp
  show "parse_value fuel (W @ serialize ind (JNumber n) @ rest) = Some (prune (JNumber n), rest)"
    unfolding f' parse_value_skip[OF w]
    using digit_not_special[OF c] c by (simp add: d skip_ws_Cons p)
qed

lemma round_tripsD:
  "round_trips v \<Longrightarrow> list_all is_ws W \<Longrightarrow> value_end rest \<Longrightarrow>
   2 * length (W @ serialize ind v @ rest) \<le> fuel \<Longrightarrow>
   parse_value fuel (W @ serialize ind v @ rest) = Some (prune v, rest)"
  unfolding round_trips_def by blast

lemma skip_ws_indent: "\<not> is_ws c \<Longrightarrow> skip_ws (CHR 0x0A # spaces n @ c # X) = c # X"
  using skip_ws_append[OF ws_indent, of n "c # X"] by (simp add: skip_ws_Cons)

lemma join_Cons: "join sep (x # xs) = x @ (if xs = [] then [] else sep @ join sep xs)"
  by (cases xs) simp_all

lemma serialize_head:
  "\<exists>c cs. serialize ind v = c # cs \<and> \<not> is_ws c \<and> c \<noteq> CHR '']''"
proof (cases v)
  case (JNumber n)
  obtain c cs where d: "digits n = c # cs" using digits_nonempty[of n] by (cases "digits n") auto
  then have c: "is_digit c" using digits_are_digits[of c n] by simp
  then have "c \<noteq> CHR '']''" by (auto simp: is_digit_def)
  with d c digit_not_special(1)[OF c] JNumber show ?thesis by simp
qed (simp_all add: is_ws_def quote_def)

lemma parse_items_round_trip:
  "\<forall>v\<in>set vs. round_trips v \<Longrightarrow> vs \<noteq> [] \<Longrightarrow> list_all is_ws W \<Longrightarrow>
   2 * length (W @ join (CHR '','' # CHR 0x0A # spaces i) (map (serialize i) vs) @
                 CHR 0x0A # spaces ind @ CHR '']'' # rest) + 1 \<le> fuel \<Longrightarrow>
   parse_items fuel (W @ join (CHR '','' # CHR 0x0A # spaces i) (map (serialize i) vs) @
                 CHR 0x0A # spaces ind @ CHR '']'' # rest) acc
     = Some (JArray (acc @ map prune vs), rest)"
proof (induction vs arbitrary: W fuel acc)
  case Nil
  then show ?case by simp
next
  case (Cons v vs)
  obtain f where f: "fuel = Suc f" using Cons.prems(4) by (cases fuel) auto
  have rv: "round_trips v" using Cons.prems(1) by simp
  show ?case
  proof (cases "vs = []")
    case True
    let ?r1 = "CHR 0x0A # spaces ind @ CHR '']'' # rest"
    have pv: "parse_value f (W @ serialize i v @ ?r1) = Some (prune v, ?r1)"
    proof (rule round_tripsD[OF rv Cons.prems(3)])
      show "value_end ?r1" by (simp add: value_end_def)
      show "2 * length (W @ serialize i v @ ?r1) \<le> f" using Cons.prems(4) f True by simp
    qed
    have sk: "skip_ws ?r1 = CHR '']'' # rest"
      by (rule skip_ws_indent) (simp add: is_ws_def)
    show ?thesis using pv sk by (simp add: f True)
  next
    case False
    let ?sep = "CHR '','' # CHR 0x0A # spaces i"
    let ?tail = "join ?sep (map (serialize i) vs) @ CHR 0x0A # spaces ind @ CHR '']'' # rest"
    let ?r1 = "CHR '','' # (CHR 0x0A # spaces i) @ ?tail"
    have input: "W @ join ?sep (map (serialize i) (v # vs)) @ CHR 0x0A # spaces ind @ CHR '']'' # rest
                 = W @ serialize i v @ ?r1"
      using False by (simp add: join_Cons)
    have pv: "parse_value f (W @ serialize i v @ ?r1) = Some (prune v, ?r1)"
    proof (rule round_tripsD[OF rv Cons.prems(3)])
      show "value_end ?r1" by (simp add: value_end_def)
      show "2 * length (W @ serialize i v @ ?r1) \<le> f"
        using Cons.prems(4) f unfolding input by simp
    qed
    have sk: "skip_ws ?r1 = ?r1" by (simp add: skip_ws_Cons is_ws_def)
    have ih: "parse_items f ((CHR 0x0A # spaces i) @ ?tail) (acc @ [prune v])
                = Some (JArray ((acc @ [prune v]) @ map prune vs), rest)"
    proof (rule Cons.IH[OF _ False ws_indent])
      show "\<forall>v\<in>set vs. round_trips v" using Cons.prems(1) by simp
      show "2 * length ((CHR 0x0A # spaces i) @ ?tail) + 1 \<le> f"
        using Cons.prems(4) f unfolding input by simp
    qed
    have "parse_items (Suc f) (W @ serialize i v @ ?r1) acc
            = parse_items f ((CHR 0x0A # spaces i) @ ?tail) (acc @ [prune v])"
      using pv sk by simp
    then show ?thesis unfolding f input using ih by simp
  qed
qed

lemma set_property_fresh: "k \<notin> fst ` set acc \<Longrightarrow> set_property acc k v = acc @ [(k, v)]"
  by (simp add: set_property_def)

lemma parse_members_round_trip:
  "\<forall>p\<in>set ps. round_trips (snd p) \<Longrightarrow> ps \<noteq> [] \<Longrightarrow> distinct (map fst acc @ map fst ps) \<Longrightarrow>
   list_all is_ws W \<Longrightarrow>
   2 * length (W @ join (CHR '','' # CHR 0x0A # spaces i)
                     (map (\<lambda>p. quote (fst p) @ CHR '':'' # CHR '' '' # serialize i (snd p)) ps) @
                 CHR 0x0A # spaces ind @ CHR ''}'' # rest) + 1 \<le> fuel \<Longrightarrow>
   parse_members fuel (W @ join (CHR '','' # CHR 0x0A # spaces i)
                     (map (\<lambda>p. quote (fst p) @ CHR '':'' # CHR '' '' # serialize i (snd p)) ps) @
                 CHR 0x0A # spaces ind @ CHR ''}'' # rest) acc
     = Some (JObject (acc @ map (\<lambda>p. (fst p, prune (snd p))) ps), rest)"
proof (induction ps arbitrary: W fuel acc)
  case Nil
  then show ?case by simp
next
  case (Cons p ps)
  obtain k v where p: "p = (k, v)" by (cases p)
  obtain f where f: "fuel = Suc f" using Cons.prems(5) by (cases fuel) auto
  have rv: "round_trips v" using Cons.prems(1) p by simp
  have fresh: "k \<notin> fst ` set acc" using Cons.prems(3) p by auto
  let ?sep = "CHR '','' # CHR 0x0A # spaces i"
  let ?m = "\<lambda>p. quote (fst p) @ CHR '':'' # CHR '' '' # serialize i (snd p)"
  let ?body = "concat (map escape_char k)"
  have skW: "\<And>X. skip_ws (W @ quote k @ X) = CHR 0x22 # ?body @ CHR 0x22 # X"
    by (simp add: skip_ws_append[OF Cons.prems(4)] quote_def skip_ws_Cons is_ws_def)
  have pc: "\<And>X. parse_chars (?body @ CHR 0x22 # X) = Some (k, X)"
    by (rule parse_chars_quoted)
  have skc: "\<And>X. skip_ws (CHR '':'' # X) = CHR '':'' # X"
    by (simp add: skip_ws_Cons is_ws_def)
  have sp: "set_property acc k (prune v) = acc @ [(k, prune v)]"
    by (rule set_property_fresh[OF fresh])
  have step: "\<And>r1 X. parse_value f ([CHR '' ''] @ serialize i v @ r1) = Some (prune v, r1) \<Longrightarrow>
       parse_members (Suc f) (W @ quote k @ CHR '':'' # CHR '' '' # serialize i v @ r1) acc
         = (case skip_ws r1 of [] \<Rightarrow> None
            | d # r4 \<Rightarrow> if d = CHR '','' then parse_members f r4 (set_property acc k (prune v))
                        else if d = CHR ''}'' then Some (JObject (set_property acc k (prune v)), r4)
                        else None)"
    using skW pc skc by simp
  have wsp: "list_all is_ws [CHR '' '']" by (simp add: is_ws_def)
  show ?case
  proof (cases "ps = []")
    case True
    let ?r1 = "CHR 0x0A # spaces ind @ CHR ''}'' # rest"
    have pv: "parse_value f ([CHR '' ''] @ serialize i v @ ?r1) = Some (prune v, ?r1)"
    proof (rule round_tripsD[OF rv wsp])
      show "value_end ?r1" by (simp add: value_end_def)
      show "2 * length ([CHR '' ''] @ serialize i v @ ?r1) \<le> f"
        using Cons.prems(5) f True p by simp
    qed
    have sk: "skip_ws ?r1 = CHR ''}'' # rest"
      by (rule skip_ws_indent) (simp add: is_ws_def)
    show ?thesis using step[OF pv] sk by (simp add: f True p sp)
  next
    case False
    let ?tail = "join ?sep (map ?m ps) @ CHR 0x0A # spaces ind @ CHR ''}'' # rest"
    let ?r1 = "CHR '','' # (CHR 0x0A # spaces i) @ ?tail"
    have input: "W @ join ?sep (map ?m (p # ps)) @ CHR 0x0A # spaces ind @ CHR ''}'' # rest
                 = W @ quote k @ CHR '':'' # CHR '' '' # serialize i v @ ?r1"
      using False by (simp add: join_Cons p)
    have pv: "parse_value f ([CHR '' ''] @ serialize i v @ ?r1) = Some (prune v, ?r1)"
    proof (rule round_tripsD[OF rv wsp])
      show "value_end ?r1" by (simp add: value_end_def)
      show "2 * length ([CHR '' ''] @ serialize i v @ ?r1) \<le> f"
        using Cons.prems(5) f unfolding input by simp
    qed
    have sk: "skip_ws ?r1 = ?r1" by (simp add: skip_ws_Cons is_ws_def)
    have ih: "parse_members f ((CHR 0x0A # spaces i) @ ?tail) (acc @ [(k, prune v)])
                = Some (JObject ((acc @ [(k, prune v)]) @ map (\<lambda>p. (fst p, prune (snd p))) ps), rest)"
    proof (rule Cons.IH[OF _ False _ ws_indent])
      show "\<forall>p\<in>set ps. round_trips (snd p)" using Cons.prems(1) by simp
      show "distinct (map fst (acc @ [(k, prune v)]) @ map fst ps)"
        using Cons.prems(3) p by simp
      show "2 * length ((CHR 0x0A # spaces i) @ ?tail) + 1 \<le> f"
        using Cons.prems(5) f unfolding input by simp
    qed
    have "parse_members (Suc f) (W @ quote k @ CHR '':'' # CHR '' '' # serialize i v @ ?r1) acc
            = parse_members f ((CHR 0x0A # spaces i) @ ?tail) (acc @ [(k, prune v)])"
      using step[OF pv] sk by (simp add: sp)
    then show ?thesis unfolding f input using ih by (simp add: p)
  qed
qed

lemma skip_ws_indent_head:
  "\<not> is_ws c \<Longrightarrow> body = c # X \<Longrightarrow> skip_ws ((CHR 0x0A # spaces i) @ body) = c # X"
  using skip_ws_append[OF ws_indent, of i body] by (simp add: skip_ws_Cons)

lemma serialize_array:
  "vs \<noteq> [] \<Longrightarrow> serialize ind (JArray vs) @ rest =
     CHR ''['' # (CHR 0x0A # spaces (ind + 2)) @
       join (CHR '','' # CHR 0x0A # spaces (ind + 2)) (map (serialize (ind + 2)) vs) @
       CHR 0x0A # spaces ind @ CHR '']'' # rest"
  by simp

lemma serialize_object:
  "filter (\<lambda>p. snd p \<noteq> JUndefined) ps \<noteq> [] \<Longrightarrow> serialize ind (JObject ps) @ rest =
     CHR ''{'' # (CHR 0x0A # spaces (ind + 2)) @
       join (CHR '','' # CHR 0x0A # spaces (ind + 2))
         (map (\<lambda>p. quote (fst p) @ CHR '':'' # CHR '' '' # serialize (ind + 2) (snd p))
            (filter (\<lambda>p. snd p \<noteq> JUndefined) ps)) @
       CHR 0x0A # spaces ind @ CHR ''}'' # rest"
  by simp

lemma parse_value_open_array:
  "skip_ws r = c # X \<Longrightarrow> c \<noteq> CHR '']'' \<Longrightarrow>
   parse_value (Suc f) (CHR ''['' # r) = parse_items f r []"
  by (simp add: skip_ws_Cons is_ws_def)

lemma parse_value_open_object:
  "skip_ws r = c # X \<Longrightarrow> c \<noteq> CHR ''}'' \<Longrightarrow>
   parse_value (Suc f) (CHR ''{'' # r) = parse_members f r []"
  by (simp add: skip_ws_Cons is_ws_def)

lemma round_trips_array:
  assumes ih: "\<forall>v\<in>set vs. round_trips v"
  shows "round_trips (JArray vs)"
  unfolding round_trips_def
proof (intro allI impI)
  fix ind fuel W rest
  assume w: "list_all is_ws W"
    and f: "2 * length (W @ serialize ind (JArray vs) @ rest) \<le> fuel"
  have "serialize ind (JArray vs) \<noteq> []" by simp
  from fuel_pos[OF f this] obtain f' where f': "fuel = Suc f'" by auto
  show "parse_value fuel (W @ serialize ind (JArray vs) @ rest) = Some (prune (JArray vs), rest)"
  proof (cases "vs = []")
    case True
    then show ?thesis
      unfolding f' parse_value_skip[OF w] by (simp add: skip_ws_Cons is_ws_def)
  next
    case False
    define i where "i = ind + 2"
    define body where "body = join (CHR '','' # CHR 0x0A # spaces i) (map (serialize i) vs) @
                   CHR 0x0A # spaces ind @ CHR '']'' # rest"
    have ser: "serialize ind (JArray vs) @ rest = CHR ''['' # (CHR 0x0A # spaces i) @ body"
      unfolding i_def body_def by (rule serialize_array[OF False])
    obtain v vs' where vs: "vs = v # vs'" using False by (cases vs) auto
    obtain c cs where h: "serialize i v = c # cs" "\<not> is_ws c" "c \<noteq> CHR '']''"
      using serialize_head[of i v] by blast
    have "\<exists>X. body = c # X" unfolding body_def vs by (simp add: join_Cons h(1))
    then obtain X where b: "body = c # X" ..
    have sk: "skip_ws ((CHR 0x0A # spaces i) @ body) = c # X"
      by (rule skip_ws_indent_head[OF h(2) b])
    have items: "parse_items f' ((CHR 0x0A # spaces i) @ body) [] = Some (JArray ([] @ map prune vs), rest)"
      unfolding body_def
    proof (rule parse_items_round_trip[OF ih False ws_indent])
      show "2 * length ((CHR 0x0A # spaces i) @ join (CHR '','' # CHR 0x0A # spaces i) (map (serialize i) vs) @
                   CHR 0x0A # spaces ind @ CHR '']'' # rest) + 1 \<le> f'"
        using f unfolding ser f' body_def by simp
    qed
    show ?thesis
      unfolding f' parse_value_skip[OF w] ser parse_value_open_array[OF sk h(3)] items by simp
  qed
qed

lemma round_trips_object:
  assumes ih: "\<forall>p\<in>set ps. round_trips (snd p)" and d: "distinct (map fst ps)"
  shows "round_trips (JObject ps)"
  unfolding round_trips_def
proof (intro allI impI)
  fix ind fuel W rest
  assume w: "list_all is_ws W"
    and f: "2 * length (W @ serialize ind (JObject ps) @ rest) \<le> fuel"
  have "serialize ind (JObject ps) \<noteq> []" by simp
  from fuel_pos[OF f this] obtain f' where f': "fuel = Suc f'" by auto
  define qs where "qs = filter (\<lambda>p. snd p \<noteq> JUndefined) ps"
  show "parse_value fuel (W @ serialize ind (JObject ps) @ rest) = Some (prune (JObject ps), rest)"
  proof (cases "qs = []")
    case True
    then show ?thesis
      unfolding f' parse_value_skip[OF w] qs_def by (simp add: skip_ws_Cons is_ws_def)
  next
    case False
    define i where "i = ind + 2"
    define m where "m = (\<lambda>p. quote (fst p) @ CHR '':'' # CHR '' '' # serialize i (snd p))"
    define body where "body = join (CHR '','' # CHR 0x0A # spaces i) (map m qs) @
                   CHR 0x0A # spaces ind @ CHR ''}'' # rest"
    have ser: "serialize ind (JObject ps) @ rest = CHR ''{'' # (CHR 0x0A # spaces i) @ body"
      unfolding i_def body_def m_def qs_def by (rule serialize_object[OF False[unfolded qs_def]])
    obtain q qs' where qs: "qs = q # qs'" using False by (cases qs) auto
    have "\<exists>X. body = CHR 0x22 # X" unfolding body_def qs by (simp add: join_Cons m_def quote_def)
    then obtain X where b: "body = CHR 0x22 # X" ..
    have nq: "\<not> is_ws (CHR 0x22)" by (simp add: is_ws_def)
    have sk: "skip_ws ((CHR 0x0A # spaces i) @ body) = CHR 0x22 # X"
      by (rule skip_ws_indent_head[OF nq b])
    have members: "parse_members f' ((CHR 0x0A # spaces i) @ body) []
                     = Some (JObject ([] @ map (\<lambda>p. (fst p, prune (snd p))) qs), rest)"
      unfolding body_def m_def
    proof (rule parse_members_round_trip[OF _ False _ ws_indent])
      show "\<forall>p\<in>set qs. round_trips (snd p)" using ih by (simp add: qs_def)
      show "distinct (map fst [] @ map fst qs)" using d by (simp add: distinct_map_filter qs_def)
      show "2 * length ((CHR 0x0A # spaces i) @ join (CHR '','' # CHR 0x0A # spaces i)
              (map (\<lambda>p. quote (fst p) @ CHR '':'' # CHR '' '' # serialize i (snd p)) qs) @
                   CHR 0x0A # spaces ind @ CHR ''}'' # rest) + 1 \<le> f'"
        using f unfolding ser f' body_def m_def by simp
    qed
    have op: "parse_value (Suc f') (CHR ''{'' # (CHR 0x0A # spaces i) @ body)
                = parse_members f' ((CHR 0x0A # spaces i) @ body) []"
      by (rule parse_value_open_object[OF sk]) simp
    show ?thesis
      unfolding f' parse_value_skip[OF w] ser op members by (simp add: qs_def)
  qed
qed

lemma well_formed_round_trips: "well_formed v \<Longrightarrow> round_trips v"
proof (induction v)
  case (JArray vs)
  then show ?case by (intro round_trips_array) (simp add: list_all_iff)
next
  case (JObject ps)
  have "\<forall>p\<in>set ps. round_trips (snd p)"
  proof
    fix p assume p: "p \<in> set ps"
    obtain k v where kv: "p = (k, v)" by (cases p)
    have "well_formed v" using JObject.prems p kv by (auto simp: list_all_iff)
    then show "round_trips (snd p)" using JObject.IH[of p v] p kv by simp
  qed
  then show ?case using JObject.prems by (intro round_trips_object) simp_all
qed (simp_all add: round_trips_null round_trips_undefined round_trips_bool
       round_trips_number round_trips_string)

lemma JSON_parse_serialize:
  assumes "well_formed v"
  shows "JSON_parse (serialize 0 v) = Some (prune v)"
proof -
  have "parse_value (2 * length (serialize 0 v) + 2) ([] @ serialize 0 v @ []) = Some (prune v, [])"
    by (rule round_tripsD[OF well_formed_round_trips[OF assms]]) (simp_all add: value_end_def)
  then show ?thesis by (simp add: JSON_parse_def skip_ws_def)
qed

subsection \<open>The exported concepts\<close>

lemma as_category_string: "as_category (JString (category_string k)) = Some k"
  by (cases k) (simp_all add: as_category_def)

lemma well_formed_snippet: "well_formed (snippet_value s)"
  by (simp add: snippet_value_def)

lemma prune_snippet: "prune (snippet_value s) = snippet_value s"
  by (simp add: snippet_value_def)

lemma as_snippet_value: "as_snippet (snippet_value s) = Some s"
  by (simp add: as_snippet_def snippet_value_def)

lemma read_all_map: "(\<And>x. f (g x) = Some x) \<Longrightarrow> read_all f (map g xs) = Some xs"
  by (induction xs) simp_all

lemma well_formed_optional_string: "well_formed (optional_string p)"
  by (cases p) simp_all

lemma well_formed_concept_data: "well_formed (concept_data options c)"
  by (simp add: concept_data_def list_all_iff well_formed_snippet well_formed_optional_string)

lemma prune_JString: "prune \<circ> JString = JString"
  by (rule ext) simp

lemma prune_snippet_value: "prune \<circ> snippet_value = snippet_value"
  by (rule ext) (simp add: prune_snippet)

lemma read_snippets: "read_all as_snippet (map snippet_value ss) = Some ss"
  by (rule read_all_map) (rule as_snippet_value)

lemma read_strings: "read_all as_string (map JString ls) = Some ls"
  by (rule read_all_map) simp

lemma prune_concept_data:
  "prune (concept_data options c) =
     JObject
       ([(''id'', JString (id' c)),
         (''name'', JString (name c)),
         (''category'', JString (category_string (category c)))] @
        (case parent c of None \<Rightarrow> [] | Some p \<Rightarrow> [(''parent'', JString p)]) @
        [(''explanation'', JString (explanation c)),
         (''firstSeen'', JString (firstSeen c)),
         (''lastSeen'', JString (lastSeen c))] @
        (if includeSnippets options \<noteq> Some False
         then [(''chatSnippets'', JArray (map snippet_value (chatSnippets c)))] else []) @
        (if includeCodeLocations options \<noteq> Some False
         then [(''codeLocations'', JArray (map JString (codeLocations c)))] else []))"
  by (cases "parent c") (simp_all add: concept_data_def prune_JString prune_snippet_value)

lemma property_id: "property (prune (concept_data options c)) ''id'' = JString (id' c)"
  unfolding prune_concept_data by simp

lemma property_name: "property (prune (concept_data options c)) ''name'' = JString (name c)"
  unfolding prune_concept_data by simp

lemma property_category:
  "property (prune (concept_data options c)) ''category'' = JString (category_string (category c))"
  unfolding prune_concept_data by simp

lemma property_parent:
  "property (prune (concept_data options c)) ''parent'' = optional_string (parent c)"
  unfolding prune_concept_data by (cases "parent c") simp_all

lemma property_explanation:
  "property (prune (concept_data options c)) ''explanation'' = JString (explanation c)"
  unfolding prune_concept_data by (cases "parent c") simp_all

lemma property_firstSeen:
  "property (prune (concept_data options c)) ''firstSeen'' = JString (firstSeen c)"
  unfolding prune_concept_data by (cases "parent c") simp_all

lemma property_lastSeen:
  "property (prune (concept_data options c)) ''lastSeen'' = JString (lastSeen c)"
  unfolding prune_concept_data by (cases "parent c") simp_all

lemma property_chatSnippets:
  "property (prune (concept_data options c)) ''chatSnippets'' =
     (if includeSnippets options \<noteq> Some False
      then JArray (map snippet_value (chatSnippets c)) else JUndefined)"
  unfolding prune_concept_data by (cases "parent c") simp_all

lemma property_codeLocations:
  "property (prune (concept_data options c)) ''codeLocations'' =
     (if includeCodeLocations options \<noteq> Some False
      then JArray (map JString (codeLocations c)) else JUndefined)"
  unfolding prune_concept_data by (cases "parent c") simp_all

lemma optional_parent: "optional as_string (optional_string p) = Some p"
  by (cases p) (simp_all add: optional_def)

lemma optional_snippets:
  "optional (as_list as_snippet)
     (if b then JArray (map snippet_value ss) else JUndefined) = Some (if b then Some ss else None)"
  by (simp add: optional_def read_snippets)

lemma optional_strings:
  "optional (as_list as_string)
     (if b then JArray (map JString ls) else JUndefined) = Some (if b then Some ls else None)"
  by (simp add: optional_def read_strings)

lemma read_concept_data:
  "read_concept (prune (concept_data options c)) = Some (included_fields options c)"
  unfolding read_concept_def property_id property_name property_category property_parent
    property_explanation property_firstSeen property_lastSeen property_chatSnippets
    property_codeLocations optional_parent optional_snippets optional_strings as_category_string
  by (simp add: included_fields_def)

lemma read_concepts:
  "map (read_concept \<circ> (prune \<circ> concept_data options)) cs
     = map (\<lambda>c. Some (included_fields options c)) cs"
  by (induction cs) (simp_all add: read_concept_data)

subsection \<open>The claim\<close>

text \<open>
  C7. For every list of concepts and all export options, parsing the document that
  \<^verbatim>\<open>exportAsJson\<close> emits and reading its array \<^verbatim>\<open>concepts\<close> gives, concept by concept and in
  the order of the input, exactly the original values of the included fields: id, name,
  category, parent (absent for a root), explanation, firstSeen, lastSeen, and chatSnippets
  and codeLocations unless the options exclude them. The envelope (\<^verbatim>\<open>exportedAt\<close>, \<^verbatim>\<open>count\<close>)
  is not compared.
\<close>

theorem export_json_round_trip:
  "reparse_concepts (exportAsJson rt t cs options)
     = Some (map (\<lambda>c. Some (included_fields options c)) cs)"
proof -
  let ?doc = "JObject [(''exportedAt'', JString (date_at rt t)),
                 (''count'', JNumber (length cs)),
                 (''concepts'', JArray (map (concept_data options) cs))]"
  have wf: "well_formed ?doc"
    by (simp add: list_all_iff well_formed_concept_data)
  have "JSON_parse (serialize 0 ?doc) = Some (prune ?doc)"
    by (rule JSON_parse_serialize[OF wf])
  then show ?thesis
    using read_concepts[of options cs] by (simp add: reparse_concepts_def exportAsJson_def)
qed

theorem export_json_round_trip_witness:
  "reparse_concepts (exportAsJson rt0 0 [hooks, noted] export_options) =
     Some [Some \<lparr>x_id = ''a'', x_name = ''React Hooks'', x_category = library, x_parent = None,
                 x_explanation = ''about React Hooks'', x_firstSeen = ''t0'', x_lastSeen = ''t0'',
                 x_chatSnippets = Some [], x_codeLocations = None\<rparr>,
           Some \<lparr>x_id = ''b'', x_name = ''useState'', x_category = library,
                 x_parent = Some ''React Hooks'', x_explanation = ''about useState'',
                 x_firstSeen = ''t0'', x_lastSeen = ''t0'',
                 x_chatSnippets = Some [quoted_snippet], x_codeLocations = None\<rparr>]"
  using export_json_round_trip[of rt0 0 "[hooks, noted]" export_options]
  by (simp add: included_fields_def fixture_defs noted_def export_options_def)

text \<open>The document emitted for one concept with a snippet, line by line.\<close>

lemma exportAsJson_sample:
  \<open>exportAsJson rt0 0 [noted] export_options =
     join [CHR 0x0A]
       [''{'',
        ''  "exportedAt": "t",'',
        ''  "count": 1,'',
        ''  "concepts": ['',
        ''    {'',
        ''      "id": "b",'',
        ''      "name": "useState",'',
        ''      "category": "library",'',
        ''      "parent": "React Hooks",'',
        ''      "explanation": "about useState",'',
        ''      "firstSeen": "t0",'',
        ''      "lastSeen": "t0",'',
        ''      "chatSnippets": ['',
        ''        {'',
        ''          "timestamp": "t1",'',
        ''          "content": "a'' @ [CHR 0x5C, CHR 0x22, CHR 0x5C] @ ''nb"'',
        ''        }'',
        ''      ]'',
        ''    }'',
        ''  ]'',
        ''}'']\<close>
  by code_simp

end
